theory Spec2Isabelle
  imports Complex_Main "HOL-Library.Multiset"
begin

section \<open>The set partitioning problem of sci.ts and its steady-state genetic algorithm\<close>

text \<open>
  A shallow embedding of \<^verbatim>\<open>SPProblem\<close> (the set partitioning problem with Levine's
  ROW heuristic), of the generic two point crossover \<^verbatim>\<open>tpx\<close> and of the driver
  \<^verbatim>\<open>ssgarow\<close>.

  Conventions of the embedding.
  \<^item> A \<^verbatim>\<open>BitSet\<close> (package std.ts, an external primitive) is a list of booleans of
    fixed length: \<^verbatim>\<open>s.get(i)\<close> is \<open>s ! i\<close>, \<^verbatim>\<open>s.set(i, v)\<close> is \<open>s[i := v]\<close>,
    \<^verbatim>\<open>new BitSet(k)\<close> is \<open>replicate k False\<close> and \<^verbatim>\<open>new BitSet(s.size, s.buffer)\<close> is
    a copy of \<open>s\<close> (the sources call it a copy). Reads and writes are only meaningful
    below the length; the theorems assume solutions of the problem's size.
  \<^item> JavaScript numbers that hold counts and indices are natural numbers; costs and
    fitness values are real numbers, so rounding and overflow of doubles are not
    modelled. Where the source divides by a count that may be zero, the outcome
    (NaN or Infinity) is written out as a branch at the place where it is used.
  \<^item> Random draws come from an explicit, finite supply that is passed along and
    returned: one list feeds \<^verbatim>\<open>randInt\<close>, another feeds \<^verbatim>\<open>Math.random\<close>. A call that
    needs a draw when the supply is empty is \<open>Starved\<close>; a loop that is starved on every
    finite supply is a loop that never ends.
  \<^item> A thrown error is a value: \<open>Throws e\<close>.
\<close>

subsection \<open>Bit vectors, errors and the random supply\<close>

type_synonym BitSet = "bool list"

text \<open>\<^verbatim>\<open>s.set(c, !s.get(c))\<close>\<close>

definition flip :: "BitSet \<Rightarrow> nat \<Rightarrow> BitSet" where
  "flip s c = s[c := \<not> s ! c]"

datatype error =
    LengthError string  \<comment> \<open>\<^verbatim>\<open>new Error(details)\<close> of the constructor, with its message\<close>
  | TypeError           \<comment> \<open>a property read on \<^verbatim>\<open>undefined\<close>\<close>
  | EmptyRange          \<comment> \<open>\<^verbatim>\<open>randInt(lo, hi)\<close> asked for a value of an empty range\<close>

datatype rng = Rng (ints: "nat list") (units: "real list")

datatype 'a res = Done 'a rng | Throws error | Starved

text \<open>
  Modelled from the spec: \<^verbatim>\<open>randInt\<close> (src/discrete/integers, not among the sources) is
  the library's uniform random integer; the spec reads \<^verbatim>\<open>randInt(0, size)\<close> as an
  index in \<open>[0, size)\<close>. The next draw of the supply picks the value of \<open>[lo, hi)\<close>.
  An empty range has no such value: the model stops there with \<open>EmptyRange\<close>.
\<close>

definition randInt :: "nat \<Rightarrow> nat \<Rightarrow> rng \<Rightarrow> nat res" where
  "randInt lo hi g =
     (if hi \<le> lo then Throws EmptyRange
      else case ints g of
             [] \<Rightarrow> Starved
           | v # vs \<Rightarrow> Done (lo + v mod (hi - lo)) (Rng vs (units g)))"

text \<open>\<^verbatim>\<open>Math.random()\<close>: the next draw of the unit supply.\<close>

definition random :: "rng \<Rightarrow> real res" where
  "random g =
     (case units g of
        [] \<Rightarrow> Starved
      | u # us \<Rightarrow> Done u (Rng (ints g) us))"

subsection \<open>Rounding of doubles\<close>

text \<open>
  The loop bound of \<^verbatim>\<open>generate\<close> is a quotient of two doubles compared with a whole
  number, so its rounding decides how often the loop runs: \<open>17 / (34 / 14)\<close> is
  \<open>7.000000000000001\<close> in doubles. The two divisions behind it are therefore rounded as
  the machine rounds them.
\<close>

text \<open>
  The exponent of a positive real: how often it is halved to come below 2, or doubled
  to reach 1.
\<close>

function halvings :: "real \<Rightarrow> nat" where
  "halvings x = (if x < 2 then 0 else Suc (halvings (x / 2)))"
  by pat_completeness auto
termination
proof (relation "measure (\<lambda>x. nat \<lfloor>x\<rfloor>)")
  show "wf (measure (\<lambda>x. nat \<lfloor>x\<rfloor>))" by simp
next
  fix x :: real assume "\<not> x < 2"
  then have "x / 2 \<le> x - 1" by simp
  then have "\<lfloor>x / 2\<rfloor> \<le> \<lfloor>x - 1\<rfloor>" by (rule floor_mono)
  moreover have "2 \<le> \<lfloor>x\<rfloor>" using \<open>\<not> x < 2\<close> by (simp add: le_floor_iff)
  ultimately have "nat \<lfloor>x / 2\<rfloor> < nat \<lfloor>x\<rfloor>" by simp
  then show "(x / 2, x) \<in> measure (\<lambda>x. nat \<lfloor>x\<rfloor>)" by simp
qed

function doublings :: "real \<Rightarrow> nat" where
  "doublings x = (if 1 \<le> x \<or> x \<le> 0 then 0 else Suc (doublings (2 * x)))"
  by pat_completeness auto
termination
proof (relation "measure (\<lambda>x. nat \<lceil>1 / x\<rceil>)")
  show "wf (measure (\<lambda>x. nat \<lceil>1 / x\<rceil>))" by simp
next
  fix x :: real assume "\<not> (1 \<le> x \<or> x \<le> 0)"
  then have x: "0 < x" "x < 1" by simp_all
  define y where "y = 1 / x"
  have y: "1 < y" using x by (simp add: y_def)
  have h: "1 / (2 * x) = y / 2" by (simp add: y_def)
  have "y / 2 \<le> of_int (\<lceil>y\<rceil> - 1)"
  proof (cases "2 \<le> y")
    case True
    have "y \<le> of_int \<lceil>y\<rceil>" by simp
    with True show ?thesis by linarith
  next
    case False
    have "2 \<le> \<lceil>y\<rceil>" using y by (simp add: le_ceiling_iff)
    then have "(1::real) \<le> of_int (\<lceil>y\<rceil> - 1)" by simp
    with False show ?thesis by linarith
  qed
  then have "\<lceil>y / 2\<rceil> \<le> \<lceil>y\<rceil> - 1" by (simp only: ceiling_le_iff)
  moreover have "0 < \<lceil>y\<rceil>" using y by (simp add: less_ceiling_iff)
  ultimately have "nat \<lceil>1 / (2 * x)\<rceil> < nat \<lceil>1 / x\<rceil>" by (simp add: h y_def[symmetric])
  then show "(2 * x, x) \<in> measure (\<lambda>x. nat \<lceil>1 / x\<rceil>)" by simp
qed

definition pow2 :: "int \<Rightarrow> real" where
  "pow2 k = (if 0 \<le> k then 2 ^ nat k else 1 / 2 ^ nat (- k))"

text \<open>
  The double nearest to a non-negative real (IEEE 754 binary64, round to nearest, ties to
  even): 53 significant bits at the exponent of \<open>x\<close>, with the fixed spacing \<open>2\<^sup>-\<^sup>1\<^sup>0\<^sup>7\<^sup>4\<close>
  below \<open>2\<^sup>-\<^sup>1\<^sup>0\<^sup>2\<^sup>2\<close>. It is used for quotients of counts, which are far below the
  overflow threshold.
\<close>

definition fl :: "real \<Rightarrow> real" where
  "fl x =
     (if x \<le> 0 then 0
      else
        let e = (if 1 \<le> x then int (halvings x) else - int (doublings x));
            u = pow2 (max e (- 1022) - 52);
            q = x / u;
            f = \<lfloor>q\<rfloor>;
            r = (if q - of_int f < 1 / 2 then f
                 else if q - of_int f > 1 / 2 then f + 1
                 else if even f then f else f + 1)
        in of_int r * u)"

subsection \<open>Two point crossover\<close>

text \<open>
  The loop of \<^verbatim>\<open>tpx\<close> once the start \<open>x\<close> is drawn: \<open>distance = ceil(size * xFactor)\<close>
  positions, wrapping around, are copied across.
\<close>

definition tpx_at :: "BitSet \<Rightarrow> BitSet \<Rightarrow> real \<Rightarrow> nat \<Rightarrow> BitSet \<times> BitSet" where
  "tpx_at a b xFactor x =
     (let distance = \<lceil>real (length a) * xFactor\<rceil>
      in foldl (\<lambda>(ab, ba) i.
                  let bit = (x + i) mod length a
                  in (ab[bit := b ! bit], ba[bit := a ! bit]))
           (a, b) [0..<nat distance])"

definition tpx :: "BitSet \<Rightarrow> BitSet \<Rightarrow> real \<Rightarrow> rng \<Rightarrow> (BitSet \<times> BitSet) res" where
  "tpx a b xFactor g =
     (case randInt 0 (length a) g of
        Done x g' \<Rightarrow> Done (tpx_at a b xFactor x) g'
      | Throws e \<Rightarrow> Throws e
      | Starved \<Rightarrow> Starved)"

subsection \<open>The problem and its construction\<close>

record SPProblem =
  rows :: nat
  sets :: "nat list list"
  costs :: "real list"
  averageNonZeros :: real
  Ri :: "nat list list"
  penalty :: real

text \<open>\<^verbatim>\<open>get n()\<close>: the problem's size.\<close>

definition n_sets :: "SPProblem \<Rightarrow> nat" where
  "n_sets P = length (sets P)"

datatype RowSelectionStrategy = RSS_Random | RSS_Max

datatype ImprovementStrategy = IS_First | IS_Best

text \<open>Decimal digits of a count, as a template literal prints it.\<close>

fun decimal :: "nat \<Rightarrow> string" where
  "decimal k = (if k < 10 then [''0123456789'' ! k]
                else decimal (k div 10) @ [''0123456789'' ! (k mod 10)])"

text \<open>The message of the constructor's error: both lengths, by name.\<close>

definition details :: "nat \<Rightarrow> nat \<Rightarrow> string" where
  "details n_of_sets n_of_costs =
     ''Lengths:'' @ [CHR 0x0A] @ decimal n_of_sets @ '' sets and '' @ decimal n_of_costs @ '' costs''"

text \<open>
  Modelled from the spec: \<^verbatim>\<open>sci.statistics.avg\<close> (not among the sources) is the average
  of the costs.
\<close>

definition avg :: "real list \<Rightarrow> real" where
  "avg xs = sum_list xs / real (length xs)"

text \<open>
  \<^verbatim>\<open>this.sets[i].forEach(row => this.Ri[row].push(i))\<close>: a row that \<open>Ri\<close> does not have
  makes \<^verbatim>\<open>this.Ri[row]\<close> undefined, and the push throws.
\<close>

fun push_rows :: "nat \<Rightarrow> nat list \<Rightarrow> nat list list \<Rightarrow> error + nat list list" where
  "push_rows i [] R = Inr R"
| "push_rows i (row # rest) R =
     (if row < length R then push_rows i rest (R[row := R ! row @ [i]])
      else Inl TypeError)"

text \<open>
  The loop of \<^verbatim>\<open>init\<close> over the set indices. Its state is the caller's array of sets
  (each set is sorted in place; \<^verbatim>\<open>std.algorithm.sort\<close> sorts ascending), the running
  count of non-zeros and \<open>Ri\<close>. The first component of the result is the array as the
  loop leaves it, also when it throws.
\<close>

fun init_loop ::
  "nat list \<Rightarrow> nat list list \<Rightarrow> nat \<Rightarrow> nat list list
     \<Rightarrow> nat list list \<times> (error + nat \<times> nat list list)" where
  "init_loop [] ss nz R = (ss, Inr (nz, R))"
| "init_loop (i # idxs) ss nz R =
     (let ss' = ss[i := sort (ss ! i)]
      in case push_rows i (ss' ! i) R of
           Inl e \<Rightarrow> (ss', Inl e)
         | Inr R' \<Rightarrow> init_loop idxs ss' (nz + length (ss' ! i)) R')"

text \<open>
  \<^verbatim>\<open>init()\<close>: returns the array of sets as left, and \<open>averageNonZeros\<close> with \<open>Ri\<close>.
  The running count is a whole number, exact in doubles; the final division is rounded.
  With no set at all the source's average is \<open>0 / 0\<close>, NaN; the field then holds \<open>0\<close>
  and \<open>generate\<close>, its only reader, treats that case apart.
\<close>

definition init :: "nat \<Rightarrow> nat list list \<Rightarrow> nat list list \<times> (error + real \<times> nat list list)" where
  "init m ss =
     (case init_loop [0..<length ss] ss 0 (replicate m []) of
        (ss', Inl e) \<Rightarrow> (ss', Inl e)
      | (ss', Inr (nz, R)) \<Rightarrow> (ss', Inr (fl (real nz / real (length ss)), R)))"

text \<open>
  The constructor. The object keeps the caller's arrays themselves (\<^verbatim>\<open>private sets\<close>),
  so the first component of the result, the caller's array of sets after the call, is
  also the \<open>sets\<close> field of the object that is built.
\<close>

definition new_SPProblem ::
  "nat \<Rightarrow> nat list list \<Rightarrow> real list \<Rightarrow> real \<Rightarrow> nat list list \<times> (error + SPProblem)" where
  "new_SPProblem m ss cs penaltyFactor =
     (if length ss \<noteq> length cs then (ss, Inl (LengthError (details (length ss) (length cs))))
      else
        let avgCost = avg cs; pen = avgCost * penaltyFactor
        in case init m ss of
             (ss', Inl e) \<Rightarrow> (ss', Inl e)
           | (ss', Inr (anz, R)) \<Rightarrow>
               (ss', Inr \<lparr>rows = m, sets = ss', costs = cs, averageNonZeros = anz,
                          Ri = R, penalty = pen\<rparr>))"

subsection \<open>Fitness and feasibility\<close>

text \<open>The inner loop of \<^verbatim>\<open>value\<close>: \<open>r\<close> starts at \<open>-1\<close> and counts the selected sets of a row.\<close>

definition row_r :: "BitSet \<Rightarrow> nat list \<Rightarrow> int" where
  "row_r s row = foldl (\<lambda>r j. if s ! j then r + 1 else r) (- 1) row"

definition value_of :: "SPProblem \<Rightarrow> BitSet \<Rightarrow> real" where
  "value_of P s =
     (let penalties = foldl (\<lambda>p row. p + real_of_int \<bar>row_r s row\<bar> * penalty P) 0 (Ri P);
          v = foldl (\<lambda>v i. if s ! i then v + costs P ! i else v) 0 [0..<length s]
      in v + penalties)"

text \<open>
  The inner loop of \<^verbatim>\<open>validate\<close> over the rows of one selected set; \<open>None\<close> is the early
  \<^verbatim>\<open>return false\<close>.
\<close>

fun mark_rows :: "nat list \<Rightarrow> BitSet \<Rightarrow> BitSet option" where
  "mark_rows [] bs = Some bs"
| "mark_rows (row # rest) bs = (if bs ! row then None else mark_rows rest (bs[row := True]))"

fun validate_loop :: "SPProblem \<Rightarrow> BitSet \<Rightarrow> nat list \<Rightarrow> BitSet \<Rightarrow> bool" where
  "validate_loop P s [] bs = list_all (\<lambda>b. b) bs"
| "validate_loop P s (i # idxs) bs =
     (if s ! i then
        (case mark_rows (sets P ! i) bs of
           None \<Rightarrow> False
         | Some bs' \<Rightarrow> validate_loop P s idxs bs')
      else validate_loop P s idxs bs)"

definition validate :: "SPProblem \<Rightarrow> BitSet \<Rightarrow> bool" where
  "validate P s = validate_loop P s [0..<n_sets P] (replicate (rows P) False)"

subsection \<open>The ROW heuristic\<close>

text \<open>The sets of a row that the solution selects (the list \<open>r\<close> of \<^verbatim>\<open>selectRow\<close>).\<close>

definition selected_of :: "BitSet \<Rightarrow> nat list \<Rightarrow> nat list" where
  "selected_of s row = filter (\<lambda>j. s ! j) row"

definition selectRow :: "SPProblem \<Rightarrow> BitSet \<Rightarrow> RowSelectionStrategy \<Rightarrow> rng \<Rightarrow> (nat list) res" where
  "selectRow P s rss g =
     (if rss = RSS_Max then
        Done (foldl (\<lambda>mx row. let r = selected_of s row
                               in if length r > length mx then r else mx) [] (Ri P)) g
      else
        case randInt 0 (rows P) g of
          Done k g' \<Rightarrow>
            (if k < length (Ri P) then Done (selected_of s (Ri P ! k)) g'
             else Throws TypeError)
        | Throws e \<Rightarrow> Throws e
        | Starved \<Rightarrow> Starved)"

text \<open>
  One pass of the loop of the Best strategy: flip, evaluate, remember a strict
  improvement, flip back. \<open>best = None\<close> is the source's \<open>-1\<close>.
\<close>

definition best_step ::
  "SPProblem \<Rightarrow> nat list \<Rightarrow> BitSet \<times> real \<times> nat option \<Rightarrow> nat \<Rightarrow> BitSet \<times> real \<times> nat option" where
  "best_step P cols st i =
     (case st of (newS, bestCost, best) \<Rightarrow>
        let newS1 = flip newS (cols ! i);
            colCost = value_of P newS1
        in if colCost < bestCost then (flip newS1 (cols ! i), colCost, Some i)
           else (flip newS1 (cols ! i), bestCost, best))"

text \<open>The loop of the First strategy; \<open>Some\<close> is its early return.\<close>

fun first_loop :: "SPProblem \<Rightarrow> nat list \<Rightarrow> BitSet \<Rightarrow> real \<Rightarrow> BitSet option" where
  "first_loop P [] newS bestCost = None"
| "first_loop P (col # cols) newS bestCost =
     (let newS1 = flip newS col
      in if value_of P newS1 < bestCost then Some newS1
         else first_loop P cols (flip newS1 col) bestCost)"

definition improve ::
  "SPProblem \<Rightarrow> BitSet \<Rightarrow> ImprovementStrategy \<Rightarrow> RowSelectionStrategy \<Rightarrow> rng \<Rightarrow> BitSet res" where
  "improve P s ist rss g =
     (case selectRow P s rss g of
        Throws e \<Rightarrow> Throws e
      | Starved \<Rightarrow> Starved
      | Done cols g' \<Rightarrow>
          let newS = s; bestCost = value_of P s
          in if ist = IS_Best then
               (case foldl (best_step P cols) (newS, bestCost, None) [0..<length cols] of
                  (newS', c, Some b) \<Rightarrow> Done (flip newS' (cols ! b)) g'
                | (newS', c, None) \<Rightarrow> Done s g')
             else
               (case first_loop P cols newS bestCost of
                  Some r \<Rightarrow> Done r g'
                | None \<Rightarrow> Done s g'))"

subsection \<open>Random generation and the problem's own crossover\<close>

text \<open>
  \<^verbatim>\<open>nonZero = this.rows / this.averageNonZeros\<close>, a rounded quotient of doubles, and
  the test \<^verbatim>\<open>i < nonZero\<close> of \<^verbatim>\<open>generate\<close>. Without sets \<open>averageNonZeros\<close> is NaN
  and so is \<open>nonZero\<close>: the test fails. With sets that are all empty the division is by
  zero: \<open>nonZero\<close> is Infinity (the test holds) unless \<open>rows\<close> is zero too (NaN again).
\<close>

definition nonZero :: "SPProblem \<Rightarrow> real" where
  "nonZero P = fl (real (rows P) / averageNonZeros P)"

definition below_nonZero :: "SPProblem \<Rightarrow> nat \<Rightarrow> bool" where
  "below_nonZero P i =
     (if n_sets P = 0 then False
      else if averageNonZeros P = 0 then rows P \<noteq> 0
      else real i < nonZero P)"

text \<open>
  The loop of \<^verbatim>\<open>generate\<close>: a pick that is already selected undoes the increment of
  \<open>i\<close>, so the pass does not count.
\<close>

function gen_loop :: "SPProblem \<Rightarrow> nat \<Rightarrow> BitSet \<Rightarrow> rng \<Rightarrow> BitSet res" where
  "gen_loop P i s g =
     (if below_nonZero P i then
        (case randInt 0 (n_sets P) g of
           Done v g' \<Rightarrow>
             (if s ! v then gen_loop P i s g'
              else gen_loop P (i + 1) (s[v := True]) g')
         | Throws e \<Rightarrow> Throws e
         | Starved \<Rightarrow> Starved)
      else Done s g)"
  by pat_completeness auto
termination
  by (relation "measure (\<lambda>(P, i, s, g). length (ints g))")
     (auto simp: randInt_def split: if_splits list.splits)

definition generate :: "SPProblem \<Rightarrow> rng \<Rightarrow> BitSet res" where
  "generate P g = gen_loop P 0 (replicate (n_sets P) False) g"

text \<open>
  \<^verbatim>\<open>inRange.bind(this)(i, x, distance)\<close>. The function reads \<open>x\<close> and \<open>distance\<close> of the
  enclosing call besides its own parameters \<open>center\<close> and \<open>range\<close> (here \<open>rng_size\<close>). With a problem of
  size zero the remainder is NaN and the second test fails.
\<close>

definition inRange :: "SPProblem \<Rightarrow> nat \<Rightarrow> nat \<Rightarrow> nat \<Rightarrow> nat \<Rightarrow> nat \<Rightarrow> bool" where
  "inRange P x distance i center rng_size =
     ((i > x \<and> i < center + rng_size)
      \<or> (n_sets P \<noteq> 0 \<and> x + rng_size \<ge> n_sets P \<and> i \<le> (center + distance) mod n_sets P))"

text \<open>\<^verbatim>\<open>while ((distance = randInt(0, a.size - 1)) === 0) {}\<close>\<close>

function draw_distance :: "nat \<Rightarrow> rng \<Rightarrow> nat res" where
  "draw_distance size_a g =
     (case randInt 0 (size_a - 1) g of
        Done d g' \<Rightarrow> (if d = 0 then draw_distance size_a g' else Done d g')
      | Throws e \<Rightarrow> Throws e
      | Starved \<Rightarrow> Starved)"
  by pat_completeness auto
termination
  by (relation "measure (\<lambda>(k, g). length (ints g))")
     (auto simp: randInt_def split: if_splits list.splits)

text \<open>
  \<^verbatim>\<open>Math.random() < pMutation\<close> with \<^verbatim>\<open>pMutation = 1 / this.n\<close>; for a problem of size
  zero the bound is Infinity.
\<close>

definition fires :: "SPProblem \<Rightarrow> real \<Rightarrow> bool" where
  "fires P u = (if n_sets P = 0 then True else u < 1 / real (n_sets P))"

text \<open>\<^verbatim>\<open>Math.random() < pMutation ? !bit : bit\<close>\<close>

definition mutated :: "SPProblem \<Rightarrow> bool \<Rightarrow> rng \<Rightarrow> bool res" where
  "mutated P bit_v g =
     (case random g of
        Done u g' \<Rightarrow> Done (if fires P u then \<not> bit_v else bit_v) g'
      | Throws e \<Rightarrow> Throws e
      | Starved \<Rightarrow> Starved)"

text \<open>The loop of \<^verbatim>\<open>crossover\<close> over the positions.\<close>

fun cross_loop ::
  "SPProblem \<Rightarrow> BitSet \<Rightarrow> BitSet \<Rightarrow> nat \<Rightarrow> nat \<Rightarrow> nat list \<Rightarrow> BitSet \<Rightarrow> BitSet \<Rightarrow> rng
     \<Rightarrow> (BitSet \<times> BitSet) res" where
  "cross_loop P a b x distance [] ab ba g = Done (ab, ba) g"
| "cross_loop P a b x distance (i # idxs) ab ba g =
     (let (for_ab, for_ba) = (if inRange P x distance i x distance then (b ! i, a ! i)
                              else (a ! i, b ! i))
      in case mutated P for_ab g of
           Done v1 g1 \<Rightarrow>
             (case mutated P for_ba g1 of
                Done v2 g2 \<Rightarrow> cross_loop P a b x distance idxs (ab[i := v1]) (ba[i := v2]) g2
              | Throws e \<Rightarrow> Throws e
              | Starved \<Rightarrow> Starved)
         | Throws e \<Rightarrow> Throws e
         | Starved \<Rightarrow> Starved)"

definition crossover :: "SPProblem \<Rightarrow> BitSet \<Rightarrow> BitSet \<Rightarrow> rng \<Rightarrow> (BitSet \<times> BitSet) res" where
  "crossover P a b g =
     (case randInt 0 (length a) g of
        Done x g1 \<Rightarrow>
          (case draw_distance (length a) g1 of
             Done distance g2 \<Rightarrow>
               cross_loop P a b x distance [0..<length a]
                 (replicate (length a) False) (replicate (length b) False) g2
           | Throws e \<Rightarrow> Throws e
           | Starved \<Rightarrow> Starved)
      | Throws e \<Rightarrow> Throws e
      | Starved \<Rightarrow> Starved)"

subsection \<open>The steady-state driver\<close>

text \<open>\<^verbatim>\<open>for (let i = 0; i < improvements; i++) p = problem.improve(p, improveS, rowSelectionS)\<close>\<close>

primrec improve_n ::
  "SPProblem \<Rightarrow> nat \<Rightarrow> ImprovementStrategy \<Rightarrow> RowSelectionStrategy \<Rightarrow> BitSet \<Rightarrow> rng \<Rightarrow> BitSet res" where
  "improve_n P 0 ist rss p g = Done p g"
| "improve_n P (Suc k) ist rss p g =
     (case improve P p ist rss g of
        Done p' g' \<Rightarrow> improve_n P k ist rss p' g'
      | Throws e \<Rightarrow> Throws e
      | Starved \<Rightarrow> Starved)"

text \<open>
  The first loop of \<^verbatim>\<open>ssgarow\<close>; the second argument counts the members still to be
  made, \<open>population\<close> and \<open>pCost\<close> are the arrays built so far.
\<close>

primrec init_population ::
  "SPProblem \<Rightarrow> nat \<Rightarrow> nat \<Rightarrow> ImprovementStrategy \<Rightarrow> RowSelectionStrategy
     \<Rightarrow> BitSet list \<Rightarrow> real list \<Rightarrow> rng \<Rightarrow> (BitSet list \<times> real list) res" where
  "init_population P 0 improvements ist rss population pCost g = Done (population, pCost) g"
| "init_population P (Suc k) improvements ist rss population pCost g =
     (case generate P g of
        Done s g1 \<Rightarrow>
          (case improve_n P improvements ist rss s g1 of
             Done s' g2 \<Rightarrow>
               init_population P k improvements ist rss
                 (population @ [s']) (pCost @ [value_of P s']) g2
           | Throws e \<Rightarrow> Throws e
           | Starved \<Rightarrow> Starved)
      | Throws e \<Rightarrow> Throws e
      | Starved \<Rightarrow> Starved)"

text \<open>
  \<^verbatim>\<open>findBest\<close> and \<^verbatim>\<open>findWorst\<close>: the index \<open>-1\<close> is \<open>None\<close>, and so is the starting
  \<open>kValue\<close> (Infinity, respectively -Infinity), which every fitness beats.
\<close>

definition findBest :: "SPProblem \<Rightarrow> BitSet list \<Rightarrow> nat option" where
  "findBest P population =
     fst (foldl (\<lambda>(k, kValue) i.
                   let iValue = value_of P (population ! i)
                   in if (case kValue of None \<Rightarrow> True | Some kv \<Rightarrow> kv > iValue)
                      then (Some i, Some iValue) else (k, kValue))
            (None, None) [0..<length population])"

definition findWorst :: "SPProblem \<Rightarrow> BitSet list \<Rightarrow> nat option" where
  "findWorst P population =
     fst (foldl (\<lambda>(k, kValue) i.
                   let iValue = value_of P (population ! i)
                   in if (case kValue of None \<Rightarrow> True | Some kv \<Rightarrow> kv < iValue)
                      then (Some i, Some iValue) else (k, kValue))
            (None, None) [0..<length population])"

definition binaryTournament :: "SPProblem \<Rightarrow> BitSet list \<Rightarrow> rng \<Rightarrow> nat res" where
  "binaryTournament P population g =
     (case randInt 0 (length population) g of
        Done a g1 \<Rightarrow>
          (case randInt 0 (length population) g1 of
             Done b g2 \<Rightarrow>
               Done (if value_of P (population ! a) < value_of P (population ! b) then a else b) g2
           | Throws e \<Rightarrow> Throws e
           | Starved \<Rightarrow> Starved)
      | Throws e \<Rightarrow> Throws e
      | Starved \<Rightarrow> Starved)"

text \<open>The loop of \<^verbatim>\<open>getCandidates\<close>; \<open>n\<close> is \<^verbatim>\<open>Math.floor(popSize * selRate)\<close>.\<close>

function candidates_loop ::
  "SPProblem \<Rightarrow> BitSet list \<Rightarrow> int \<Rightarrow> nat list \<Rightarrow> rng \<Rightarrow> (nat list) res" where
  "candidates_loop P population n candidates g =
     (if int (length candidates) < n then
        (case binaryTournament P population g of
           Done candidate g' \<Rightarrow>
             candidates_loop P population n
               (if candidate \<in> set candidates then candidates else candidates @ [candidate]) g'
         | Throws e \<Rightarrow> Throws e
         | Starved \<Rightarrow> Starved)
      else Done candidates g)"
  by pat_completeness auto
termination
  by (relation "measure (\<lambda>(P, population, n, candidates, g). length (ints g))")
     (auto simp: binaryTournament_def randInt_def split: if_splits list.splits res.splits)

definition getCandidates ::
  "SPProblem \<Rightarrow> BitSet list \<Rightarrow> nat \<Rightarrow> real \<Rightarrow> rng \<Rightarrow> (nat list) res" where
  "getCandidates P population popSize selRate g =
     candidates_loop P population \<lfloor>real popSize * selRate\<rfloor> [] g"

text \<open>
  \<^verbatim>\<open>for (const s of selection)\<close>: with probability \<open>xRate\<close> the candidate is crossed with
  a candidate picked at random, and both children are appended to \<open>newP\<close>.
\<close>

fun breed ::
  "SPProblem \<Rightarrow> BitSet list \<Rightarrow> real \<Rightarrow> nat list \<Rightarrow> nat list \<Rightarrow> BitSet list \<Rightarrow> rng
     \<Rightarrow> (BitSet list) res" where
  "breed P population xRate selection [] newP g = Done newP g"
| "breed P population xRate selection (s # rest) newP g =
     (case random g of
        Done u g1 \<Rightarrow>
          (if u < xRate then
             (case randInt 0 (length selection) g1 of
                Done k g2 \<Rightarrow>
                  (case crossover P (population ! s) (population ! (selection ! k)) g2 of
                     Done (child1, child2) g3 \<Rightarrow>
                       breed P population xRate selection rest (newP @ [child1, child2]) g3
                   | Throws e \<Rightarrow> Throws e
                   | Starved \<Rightarrow> Starved)
              | Throws e \<Rightarrow> Throws e
              | Starved \<Rightarrow> Starved)
           else breed P population xRate selection rest newP g1)
      | Throws e \<Rightarrow> Throws e
      | Starved \<Rightarrow> Starved)"

text \<open>
  \<^verbatim>\<open>newP.forEach\<close>: every child is improved and evaluated, and takes the place of the
  worst member when it is strictly better. With \<open>worstIdx = -1\<close> the comparison
  \<^verbatim>\<open>pCost[-1] > pVal\<close> is false.
\<close>

fun replace_loop ::
  "SPProblem \<Rightarrow> nat \<Rightarrow> ImprovementStrategy \<Rightarrow> RowSelectionStrategy \<Rightarrow> BitSet list
     \<Rightarrow> BitSet list \<Rightarrow> real list \<Rightarrow> rng \<Rightarrow> (BitSet list \<times> real list) res" where
  "replace_loop P improvements ist rss [] population pCost g = Done (population, pCost) g"
| "replace_loop P improvements ist rss (p # ps) population pCost g =
     (case improve_n P improvements ist rss p g of
        Done p' g' \<Rightarrow>
          (let pVal = value_of P p'
           in case findWorst P population of
                None \<Rightarrow> replace_loop P improvements ist rss ps population pCost g'
              | Some worstIdx \<Rightarrow>
                  (if pCost ! worstIdx > pVal
                   then replace_loop P improvements ist rss ps
                          (population[worstIdx := p']) (pCost[worstIdx := pVal]) g'
                   else replace_loop P improvements ist rss ps population pCost g'))
      | Throws e \<Rightarrow> Throws e
      | Starved \<Rightarrow> Starved)"

text \<open>One pass of the generation loop.\<close>

definition generation ::
  "SPProblem \<Rightarrow> nat \<Rightarrow> nat \<Rightarrow> ImprovementStrategy \<Rightarrow> RowSelectionStrategy \<Rightarrow> real \<Rightarrow> real
     \<Rightarrow> BitSet list \<Rightarrow> real list \<Rightarrow> rng \<Rightarrow> (BitSet list \<times> real list) res" where
  "generation P popSize improvements ist rss selRate xRate population pCost g =
     (case getCandidates P population popSize selRate g of
        Done selection g1 \<Rightarrow>
          (case breed P population xRate selection selection [] g1 of
             Done newP g2 \<Rightarrow> replace_loop P improvements ist rss newP population pCost g2
           | Throws e \<Rightarrow> Throws e
           | Starved \<Rightarrow> Starved)
      | Throws e \<Rightarrow> Throws e
      | Starved \<Rightarrow> Starved)"

primrec generations ::
  "SPProblem \<Rightarrow> nat \<Rightarrow> nat \<Rightarrow> nat \<Rightarrow> ImprovementStrategy \<Rightarrow> RowSelectionStrategy \<Rightarrow> real \<Rightarrow> real
     \<Rightarrow> BitSet list \<Rightarrow> real list \<Rightarrow> rng \<Rightarrow> (BitSet list \<times> real list) res" where
  "generations P 0 popSize improvements ist rss selRate xRate population pCost g =
     Done (population, pCost) g"
| "generations P (Suc k) popSize improvements ist rss selRate xRate population pCost g =
     (case generation P popSize improvements ist rss selRate xRate population pCost g of
        Done (population', pCost') g' \<Rightarrow>
          generations P k popSize improvements ist rss selRate xRate population' pCost' g'
      | Throws e \<Rightarrow> Throws e
      | Starved \<Rightarrow> Starved)"

text \<open>
  The end of \<^verbatim>\<open>ssgarow\<close>. With an empty population \<^verbatim>\<open>population[-1]\<close> is undefined
  (\<open>None\<close>): it is returned as it is when there is no improvement pass, and \<^verbatim>\<open>improve\<close>
  throws on it otherwise.
\<close>

definition finalize ::
  "SPProblem \<Rightarrow> nat \<Rightarrow> ImprovementStrategy \<Rightarrow> RowSelectionStrategy \<Rightarrow> BitSet list \<Rightarrow> rng
     \<Rightarrow> (BitSet option) res" where
  "finalize P improvements ist rss population g =
     (case findBest P population of
        None \<Rightarrow> (if improvements = 0 then Done None g else Throws TypeError)
      | Some k \<Rightarrow>
          (case improve_n P improvements ist rss (population ! k) g of
             Done p g' \<Rightarrow> Done (Some p) g'
           | Throws e \<Rightarrow> Throws e
           | Starved \<Rightarrow> Starved))"

definition ssgarow ::
  "SPProblem \<Rightarrow> nat \<Rightarrow> nat \<Rightarrow> nat \<Rightarrow> ImprovementStrategy \<Rightarrow> RowSelectionStrategy \<Rightarrow> real \<Rightarrow> real
     \<Rightarrow> rng \<Rightarrow> (BitSet option) res" where
  "ssgarow P popSize genN improvements improveS rowSelectionS selRate xRate g =
     (case init_population P popSize improvements improveS rowSelectionS [] [] g of
        Done (population, pCost) g1 \<Rightarrow>
          (case generations P genN popSize improvements improveS rowSelectionS selRate xRate
                  population pCost g1 of
             Done (population', pCost') g2 \<Rightarrow>
               finalize P improvements improveS rowSelectionS population' g2
           | Throws e \<Rightarrow> Throws e
           | Starved \<Rightarrow> Starved)
      | Throws e \<Rightarrow> Throws e
      | Starved \<Rightarrow> Starved)"

subsection \<open>A concrete problem\<close>

text \<open>
  The spec's scenario: three rows, the sets \<open>{0}\<close>, \<open>{1}\<close>, \<open>{2}\<close> and \<open>{0, 1, 2}\<close>, unit costs
  and penalty factor 1, as the constructor builds it (\<open>scenario_built\<close> below).
\<close>

definition scenario :: SPProblem where
  "scenario = \<lparr>rows = 3, sets = [[0], [1], [2], [0, 1, 2]], costs = [1, 1, 1, 1],
                averageNonZeros = 3 / 2, Ri = [[0, 3], [1, 3], [2, 3]], penalty = 1\<rparr>"



subsection \<open>Notions of the statements\<close>

text \<open>
  The number of selected sets that cover row \<open>i\<close>, the cost of the selected sets, and
  the number of selected sets of a solution. \<open>ss\<close> is the array of sets, \<open>cs\<close> the costs.
\<close>

definition cover_count :: "nat list list \<Rightarrow> BitSet \<Rightarrow> nat \<Rightarrow> nat" where
  "cover_count ss s i = length (filter (\<lambda>j. s ! j \<and> i \<in> set (ss ! j)) [0..<length ss])"

definition selected_cost :: "real list \<Rightarrow> BitSet \<Rightarrow> real" where
  "selected_cost cs s = sum_list (map (\<lambda>j. cs ! j) (filter (\<lambda>j. s ! j) [0..<length s]))"


text \<open>
  The child that claim C5 describes, in the claim's words: the other parent's bit on the
  wrap-around window of \<open>distance\<close> consecutive indices starting at \<open>x\<close>, the own parent's
  bit everywhere else.
\<close>

definition window_child :: "BitSet \<Rightarrow> BitSet \<Rightarrow> nat \<Rightarrow> nat \<Rightarrow> BitSet" where
  "window_child own other x distance =
     map (\<lambda>i. if i \<in> set (map (\<lambda>k. (x + k) mod length own) [0..<distance])
               then other ! i else own ! i)
       [0..<length own]"

section \<open>Construction\<close>

subsection \<open>The loops of the constructor\<close>

lemma push_rows_ok:
  "\<forall>r\<in>set rs. r < length R \<Longrightarrow>
   \<exists>R'. push_rows i rs R = Inr R' \<and> length R' = length R
     \<and> (\<forall>k<length R. R' ! k = R ! k @ replicate (count_list rs k) i)"
proof (induction rs arbitrary: R)
  case Nil
  then show ?case by simp
next
  case (Cons r rs)
  let ?R1 = "R[r := R ! r @ [i]]"
  from Cons.prems have r: "r < length R" and rs: "\<forall>q\<in>set rs. q < length ?R1" by simp_all
  from Cons.IH[OF rs] obtain R' where
    R': "push_rows i rs ?R1 = Inr R'" "length R' = length ?R1"
        "\<forall>k<length ?R1. R' ! k = ?R1 ! k @ replicate (count_list rs k) i" by blast
  have "\<forall>k<length R. R' ! k = R ! k @ replicate (count_list (r # rs) k) i"
  proof (intro allI impI)
    fix k assume k: "k < length R"
    show "R' ! k = R ! k @ replicate (count_list (r # rs) k) i"
      using R'(3) k r by (cases "k = r") (simp_all add: replicate_app_Cons_same)
  qed
  with R' r show ?case by simp
qed

lemma push_rows_Inr_range:
  "push_rows i rs R = Inr R' \<Longrightarrow> \<forall>r\<in>set rs. r < length R"
proof (induction rs arbitrary: R)
  case Nil
  then show ?case by simp
next
  case (Cons r rs)
  from Cons.prems have r: "r < length R" and p: "push_rows i rs (R[r := R ! r @ [i]]) = Inr R'"
    by (simp_all split: if_splits)
  from Cons.IH[OF p] r show ?case by simp
qed

lemma sort_fold_upt:
  "k \<le> length ss \<Longrightarrow>
   fold (\<lambda>i xs. xs[i := sort (xs ! i)]) [0..<k] ss = map sort (take k ss) @ drop k ss"
proof (induction k)
  case 0
  then show ?case by simp
next
  case (Suc k)
  then have k: "k < length ss" by simp
  have "fold (\<lambda>i xs. xs[i := sort (xs ! i)]) [0..<Suc k] ss
        = (map sort (take k ss) @ drop k ss)[k := sort ((map sort (take k ss) @ drop k ss) ! k)]"
    using Suc by simp
  also have "(map sort (take k ss) @ drop k ss) ! k = ss ! k"
    using k by (simp add: nth_append)
  also have "(map sort (take k ss) @ drop k ss)[k := sort (ss ! k)]
        = map sort (take (Suc k) ss) @ drop (Suc k) ss"
    using k by (simp add: list_update_append take_Suc_conv_app_nth upd_conv_take_nth_drop
        flip: Cons_nth_drop_Suc)
  finally show ?case .
qed

lemma init_loop_Inr:
  "init_loop idxs ss nz R = (ss', Inr (nz', R')) \<Longrightarrow> distinct idxs \<Longrightarrow>
   \<forall>j\<in>set idxs. j < length ss \<Longrightarrow>
   ss' = fold (\<lambda>i xs. xs[i := sort (xs ! i)]) idxs ss \<and> length R' = length R
   \<and> nz' = nz + sum_list (map (\<lambda>j. length (ss ! j)) idxs)
   \<and> (\<forall>j\<in>set idxs. \<forall>r\<in>set (ss ! j). r < length R)
   \<and> (\<forall>k<length R. R' ! k = R ! k @ concat (map (\<lambda>j. replicate (count_list (ss ! j) k) j) idxs))"
proof (induction idxs arbitrary: ss nz R)
  case Nil
  then show ?case by simp
next
  case (Cons i idxs)
  let ?ss1 = "ss[i := sort (ss ! i)]"
  from Cons.prems have i: "i < length ss" and ni: "i \<notin> set idxs" and d: "distinct idxs"
    and r: "\<forall>j\<in>set idxs. j < length ?ss1" by simp_all
  have s1: "?ss1 ! i = sort (ss ! i)" using i by simp
  from Cons.prems(1) obtain R1 where
    p: "push_rows i (sort (ss ! i)) R = Inr R1"
    and l: "init_loop idxs ?ss1 (nz + length (sort (ss ! i))) R1 = (ss', Inr (nz', R'))"
    by (auto simp: s1 Let_def split: sum.splits)
  have rng: "\<forall>q\<in>set (sort (ss ! i)). q < length R" using push_rows_Inr_range[OF p] .
  from push_rows_ok[OF rng, of i] p have
    R1: "length R1 = length R"
        "\<forall>k<length R. R1 ! k = R ! k @ replicate (count_list (sort (ss ! i)) k) i" by auto
  have same: "?ss1 ! j = ss ! j" if "j \<in> set idxs" for j
    using that ni by (metis nth_list_update_neq)
  have cnt: "\<And>k. count_list (sort (ss ! i)) k = count_list (ss ! i) k"
    by (metis count_mset mset_sort)
  from Cons.IH[OF l d r] have ih:
    "ss' = fold (\<lambda>i xs. xs[i := sort (xs ! i)]) idxs ?ss1" "length R' = length R1"
    "nz' = nz + length (sort (ss ! i)) + sum_list (map (\<lambda>j. length (?ss1 ! j)) idxs)"
    "\<forall>j\<in>set idxs. \<forall>r\<in>set (?ss1 ! j). r < length R1"
    "\<forall>k<length R1. R' ! k = R1 ! k @ concat (map (\<lambda>j. replicate (count_list (?ss1 ! j) k) j) idxs)"
    by auto
  have m1: "map (\<lambda>j. length (?ss1 ! j)) idxs = map (\<lambda>j. length (ss ! j)) idxs"
    using same by (intro map_cong) auto
  have m2: "\<And>k. map (\<lambda>j. replicate (count_list (?ss1 ! j) k) j) idxs
             = map (\<lambda>j. replicate (count_list (ss ! j) k) j) idxs"
    using same by (intro map_cong) auto
  show ?case
  proof (intro conjI)
    show "ss' = fold (\<lambda>i xs. xs[i := sort (xs ! i)]) (i # idxs) ss" using ih(1) by simp
    show "length R' = length R" using ih(2) R1(1) by simp
    show "nz' = nz + sum_list (map (\<lambda>j. length (ss ! j)) (i # idxs))"
      using ih(3) m1 by simp
    show "\<forall>j\<in>set (i # idxs). \<forall>r\<in>set (ss ! j). r < length R"
      using ih(4) R1(1) same rng by auto
    show "\<forall>k<length R. R' ! k = R ! k @ concat (map (\<lambda>j. replicate (count_list (ss ! j) k) j) (i # idxs))"
      using ih(5) R1 m2 cnt by simp
  qed
qed

lemma init_loop_ok:
  "\<forall>j\<in>set idxs. j < length ss \<Longrightarrow> \<forall>st\<in>set ss. \<forall>r\<in>set st. r < length R \<Longrightarrow>
   \<exists>ss' nz' R'. init_loop idxs ss nz R = (ss', Inr (nz', R'))"
proof (induction idxs arbitrary: ss nz R)
  case Nil
  then show ?case by simp
next
  case (Cons i idxs)
  let ?ss1 = "ss[i := sort (ss ! i)]"
  from Cons.prems have i: "i < length ss" by simp
  then have "ss ! i \<in> set ss" by simp
  with Cons.prems(2) have rng: "\<forall>q\<in>set (sort (ss ! i)). q < length R" by simp
  from push_rows_ok[OF rng, of i] obtain R1 where
    p: "push_rows i (sort (ss ! i)) R = Inr R1" and len: "length R1 = length R" by blast
  have a: "\<forall>j\<in>set idxs. j < length ?ss1" using Cons.prems(1) by simp
  have b: "\<forall>st\<in>set ?ss1. \<forall>r\<in>set st. r < length R1"
  proof
    fix st assume "st \<in> set ?ss1"
    then have "st \<in> insert (sort (ss ! i)) (set ss)" using set_update_subset_insert by fastforce
    then show "\<forall>r\<in>set st. r < length R1" using rng Cons.prems(2) len by auto
  qed
  from Cons.IH[OF a b] obtain ss' nz' R' where
    "init_loop idxs ?ss1 (nz + length (sort (ss ! i))) R1 = (ss', Inr (nz', R'))" by blast
  then show ?case using p i by (simp add: Let_def)
qed

lemma new_SPProblem_Inr:
  assumes "new_SPProblem m ss cs pf = (ss', Inr P)"
  shows "length ss = length cs" "ss' = map sort ss" "sets P = map sort ss" "costs P = cs"
    "rows P = m" "penalty P = avg cs * pf" "length (Ri P) = m"
    "\<forall>j<length ss. \<forall>r\<in>set (ss ! j). r < m"
    "\<forall>k<m. Ri P ! k = concat (map (\<lambda>j. replicate (count_list (ss ! j) k) j) [0..<length ss])"
    "averageNonZeros P = fl (real (sum_list (map length ss)) / real (length ss))"
proof -
  from assms have len: "length ss = length cs"
    by (auto simp: new_SPProblem_def split: if_splits)
  from assms len obtain nz R where
    l: "init_loop [0..<length ss] ss 0 (replicate m []) = (ss', Inr (nz, R))"
    and P: "P = \<lparr>rows = m, sets = ss', costs = cs, averageNonZeros = fl (real nz / real (length ss)),
                  Ri = R, penalty = avg cs * pf\<rparr>"
    by (auto simp: new_SPProblem_def init_def Let_def split: prod.splits sum.splits)
  from init_loop_Inr[OF l] have c:
    "ss' = fold (\<lambda>i xs. xs[i := sort (xs ! i)]) [0..<length ss] ss" "length R = m"
    "nz = sum_list (map (\<lambda>j. length (ss ! j)) [0..<length ss])"
    "\<forall>j<length ss. \<forall>r\<in>set (ss ! j). r < m"
    "\<forall>k<m. R ! k = concat (map (\<lambda>j. replicate (count_list (ss ! j) k) j) [0..<length ss])"
    by auto
  have s: "ss' = map sort ss" using c(1) sort_fold_upt[of "length ss" ss] by simp
  have nz: "nz = sum_list (map length ss)"
    using c(3) by (simp add: map_nth flip: map_map[unfolded comp_def])
  show "length ss = length cs" by (rule len)
  show "ss' = map sort ss" by (rule s)
  show "sets P = map sort ss" using P s by simp
  show "costs P = cs" using P by simp
  show "rows P = m" using P by simp
  show "penalty P = avg cs * pf" using P by simp
  show "length (Ri P) = m" using P c(2) by simp
  show "\<forall>j<length ss. \<forall>r\<in>set (ss ! j). r < m" by (rule c(4))
  show "\<forall>k<m. Ri P ! k = concat (map (\<lambda>j. replicate (count_list (ss ! j) k) j) [0..<length ss])"
    using P c(5) by simp
  show "averageNonZeros P = fl (real (sum_list (map length ss)) / real (length ss))"
    using P nz by simp
qed

lemma new_SPProblem_ok:
  assumes "length ss = length cs" "\<forall>st\<in>set ss. \<forall>r\<in>set st. r < m"
  shows "\<exists>P. new_SPProblem m ss cs pf = (map sort ss, Inr P)"
proof -
  have "\<forall>j\<in>set [0..<length ss]. j < length ss" by simp
  moreover have "\<forall>st\<in>set ss. \<forall>r\<in>set st. r < length (replicate m ([]::nat list))"
    using assms(2) by simp
  ultimately obtain ss' nz R where
    l: "init_loop [0..<length ss] ss 0 (replicate m []) = (ss', Inr (nz, R))"
    using init_loop_ok by blast
  then obtain P where P: "new_SPProblem m ss cs pf = (ss', Inr P)"
    using assms(1) by (simp add: new_SPProblem_def init_def Let_def)
  from new_SPProblem_Inr(2)[OF P] P show ?thesis by blast
qed

lemma push_rows_Inl: "push_rows i rs R = Inl e \<Longrightarrow> e = TypeError"
  by (induction rs arbitrary: R) (auto split: if_splits)

lemma init_loop_Inl: "init_loop idxs ss nz R = (ss', Inl e) \<Longrightarrow> e = TypeError"
  by (induction idxs arbitrary: ss nz R)
     (auto simp: Let_def split: sum.splits dest: push_rows_Inl)

lemma new_SPProblem_Inl:
  "length ss = length cs \<Longrightarrow> snd (new_SPProblem m ss cs pf) = Inl e \<Longrightarrow> e = TypeError"
  by (auto simp: new_SPProblem_def init_def Let_def split: prod.splits sum.splits
           dest: init_loop_Inl)

text \<open>
  Claim C8, as the code has it. The constructor throws the error whose message names
  both lengths exactly when the lengths differ (the message is \<open>details\<close>: the text
  \<^verbatim>\<open>Lengths:\<close>, a line break, the number of sets, \<^verbatim>\<open>sets and\<close>, the number of
  costs, \<^verbatim>\<open>costs\<close>), and nothing of the caller's is changed then. When the lengths
  match and every row index of every set is below \<open>rows\<close>, construction succeeds with
  \<open>penalty = avg costs * penaltyFactor\<close>. When the lengths match and some row index is
  not below \<open>rows\<close>, the constructor throws a \<open>TypeError\<close> out of \<open>init\<close>.
\<close>

theorem construction_length_check:
  "(length ss \<noteq> length cs \<longrightarrow>
      new_SPProblem m ss cs pf = (ss, Inl (LengthError (details (length ss) (length cs)))))
   \<and> (length ss = length cs \<longrightarrow> (\<forall>msg. snd (new_SPProblem m ss cs pf) \<noteq> Inl (LengthError msg)))
   \<and> (length ss = length cs \<and> (\<forall>st\<in>set ss. \<forall>r\<in>set st. r < m) \<longrightarrow>
        (\<exists>P. snd (new_SPProblem m ss cs pf) = Inr P \<and> penalty P = avg cs * pf))
   \<and> (length ss = length cs \<and> \<not> (\<forall>st\<in>set ss. \<forall>r\<in>set st. r < m) \<longrightarrow>
        snd (new_SPProblem m ss cs pf) = Inl TypeError)"
proof (intro conjI impI allI)
  assume "length ss \<noteq> length cs"
  then show "new_SPProblem m ss cs pf = (ss, Inl (LengthError (details (length ss) (length cs))))"
    by (simp add: new_SPProblem_def)
next
  fix msg assume "length ss = length cs"
  then show "snd (new_SPProblem m ss cs pf) \<noteq> Inl (LengthError msg)"
    using new_SPProblem_Inl by blast
next
  assume a: "length ss = length cs \<and> (\<forall>st\<in>set ss. \<forall>r\<in>set st. r < m)"
  then obtain P where P: "new_SPProblem m ss cs pf = (map sort ss, Inr P)"
    using new_SPProblem_ok by blast
  with new_SPProblem_Inr(6)[OF P]
  show "\<exists>P. snd (new_SPProblem m ss cs pf) = Inr P \<and> penalty P = avg cs * pf" by simp
next
  assume a: "length ss = length cs \<and> \<not> (\<forall>st\<in>set ss. \<forall>r\<in>set st. r < m)"
  show "snd (new_SPProblem m ss cs pf) = Inl TypeError"
  proof (cases "snd (new_SPProblem m ss cs pf)")
    case (Inl e)
    with a new_SPProblem_Inl show ?thesis by blast
  next
    case (Inr P)
    then have "new_SPProblem m ss cs pf = (fst (new_SPProblem m ss cs pf), Inr P)"
      by (metis prod.collapse)
    from new_SPProblem_Inr(8)[OF this] have "\<forall>st\<in>set ss. \<forall>r\<in>set st. r < m"
      by (metis in_set_conv_nth)
    with a show ?thesis by blast
  qed
qed

theorem construction_length_check_witness:
  "new_SPProblem 3 [[0], [1]] [1, 1, 1] 1
     = ([[0], [1]], Inl (LengthError (''Lengths:'' @ [CHR 0x0A] @ ''2 sets and 3 costs'')))
   \<and> (\<exists>P. snd (new_SPProblem 3 [[0], [1], [2], [0, 1, 2]] [1, 1, 1, 1] 1) = Inr P \<and> penalty P = 1)
   \<and> snd (new_SPProblem 1 [[1]] [1] 1) = Inl TypeError"
  using construction_length_check[of "[[0], [1]]" "[1, 1, 1]" 3 1]
    construction_length_check[of "[[0], [1], [2], [0, 1, 2]]" "[1, 1, 1, 1]" 3 1]
    construction_length_check[of "[[1]]" "[1]" 1 1]
  by (simp add: details_def avg_def)

text \<open>
  The claim as worded (with matching lengths construction succeeds) fails for one set
  that names row 1 of a problem with a single row 0.
\<close>

theorem construction_out_of_range_row:
  "length [[1::nat]] = length [1::real] \<and> snd (new_SPProblem 1 [[1]] [1] 1) = Inl TypeError"
  by (simp add: new_SPProblem_def init_def avg_def)

text \<open>
  Claim C10. A construction that succeeds leaves the caller's array of sets with every
  set sorted ascending (same row indices, same multiplicities), and that array is the
  \<open>sets\<close> field of the object; the costs and the number of rows are the ones passed in.
\<close>

theorem construction_sorts_in_place:
  assumes "new_SPProblem m ss cs pf = (ss', Inr P)"
  shows "ss' = map sort ss \<and> sets P = ss' \<and> length ss' = length ss
    \<and> (\<forall>i<length ss. sorted (ss' ! i) \<and> mset (ss' ! i) = mset (ss ! i))
    \<and> costs P = cs \<and> rows P = m"
  using new_SPProblem_Inr[OF assms] by simp

theorem construction_sorts_in_place_witness:
  "new_SPProblem 3 [[2, 0], [1], [2, 1, 0]] [4, 5, 6] 1
     = ([[0, 2], [1], [0, 1, 2]],
        Inr \<lparr>rows = 3, sets = [[0, 2], [1], [0, 1, 2]], costs = [4, 5, 6],
             averageNonZeros = 2, Ri = [[0, 2], [1, 2], [0, 2]], penalty = 5\<rparr>)
   \<and> map sort [[2, 0], [1], [2, 1, 0::nat]] = [[0, 2], [1], [0, 1, 2]]"
proof -
  have e: "new_SPProblem 3 [[2, 0], [1], [2, 1, 0]] [4, 5, 6] 1
     = ([[0, 2], [1], [0, 1, 2]],
        Inr \<lparr>rows = 3, sets = [[0, 2], [1], [0, 1, 2]], costs = [4, 5, 6],
             averageNonZeros = 2, Ri = [[0, 2], [1, 2], [0, 2]], penalty = 5\<rparr>)"
    by code_simp
  from construction_sorts_in_place[OF e] e show ?thesis by simp
qed

section \<open>Two point crossover: sizes and the full swap\<close>

lemma wrap_hits_every_index:
  assumes "j < (n::nat)"
  shows "\<exists>i<n. (x + i) mod n = j"
proof -
  let ?i = "(j + (n - x mod n)) mod n"
  have n: "0 < n" using assms by simp
  define r q where "r = x mod n" and "q = x div n"
  have x: "x = q * n + r" and r: "r < n" using n by (simp_all add: r_def q_def)
  have "x + (j + (n - r)) = j + (q + 1) * n" using r by (simp add: x algebra_simps)
  then have "x + (j + (n - x mod n)) = j + (x div n + 1) * n" by (simp add: r_def q_def)
  moreover have "(j + (x div n + 1) * n) mod n = j mod n" by (rule mod_mult_self1)
  ultimately have "(x + (j + (n - x mod n))) mod n = j" using assms by simp
  then have "(x + ?i) mod n = j" by (simp add: mod_add_right_eq)
  moreover have "?i < n" using n by simp
  ultimately show ?thesis by blast
qed

lemma tpx_fold:
  fixes a b :: BitSet
  assumes "length a = n" "length b = n"
  shows "\<exists>ab ba. foldl (\<lambda>(ab, ba) i. let bit = (x + i) mod length a
                                        in (ab[bit := b ! bit], ba[bit := a ! bit]))
                    (a, b) [0..<k] = (ab, ba)
      \<and> length ab = n \<and> length ba = n
      \<and> (\<forall>j<n. ab ! j = (if \<exists>i<k. (x + i) mod n = j then b ! j else a ! j))
      \<and> (\<forall>j<n. ba ! j = (if \<exists>i<k. (x + i) mod n = j then a ! j else b ! j))"
proof (induction k)
  case 0
  then show ?case using assms by simp
next
  case (Suc k)
  then obtain ab ba where ih:
    "foldl (\<lambda>(ab, ba) i. let bit = (x + i) mod length a
                           in (ab[bit := b ! bit], ba[bit := a ! bit])) (a, b) [0..<k] = (ab, ba)"
    "length ab = n" "length ba = n"
    "\<forall>j<n. ab ! j = (if \<exists>i<k. (x + i) mod n = j then b ! j else a ! j)"
    "\<forall>j<n. ba ! j = (if \<exists>i<k. (x + i) mod n = j then a ! j else b ! j)"
    by blast
  let ?bit = "(x + k) mod n"
  have ex: "(\<exists>i<Suc k. (x + i) mod n = j) \<longleftrightarrow> (\<exists>i<k. (x + i) mod n = j) \<or> ?bit = j" for j
    by (auto simp: less_Suc_eq)
  have "\<forall>j<n. (ab[?bit := b ! ?bit]) ! j = (if \<exists>i<Suc k. (x + i) mod n = j then b ! j else a ! j)"
    using ih(2,4) by (auto simp: ex nth_list_update)
  moreover
  have "\<forall>j<n. (ba[?bit := a ! ?bit]) ! j = (if \<exists>i<Suc k. (x + i) mod n = j then a ! j else b ! j)"
    using ih(3,5) by (auto simp: ex nth_list_update)
  ultimately show ?case using ih(1,2,3) assms by (simp add: Let_def)
qed

lemma tpx_at_sizes:
  assumes "length a = length b"
  shows "length (fst (tpx_at a b xFactor x)) = length a"
    and "length (snd (tpx_at a b xFactor x)) = length b"
  using tpx_fold[OF refl assms[symmetric], of x "nat \<lceil>real (length a) * xFactor\<rceil>"]
  by (auto simp: tpx_at_def Let_def assms)

lemma tpx_at_full_swap:
  assumes "length a = length b"
  shows "tpx_at a b 1 x = (b, a)"
proof -
  from tpx_fold[OF refl assms[symmetric], of x "length a"] obtain ab ba where f:
    "foldl (\<lambda>(ab, ba) i. let bit = (x + i) mod length a
                           in (ab[bit := b ! bit], ba[bit := a ! bit])) (a, b) [0..<length a] = (ab, ba)"
    "length ab = length a" "length ba = length a"
    "\<forall>j<length a. ab ! j = (if \<exists>i<length a. (x + i) mod length a = j then b ! j else a ! j)"
    "\<forall>j<length a. ba ! j = (if \<exists>i<length a. (x + i) mod length a = j then a ! j else b ! j)"
    by blast
  have "ab = b" using f(2,4) assms wrap_hits_every_index[of _ "length a" x]
    by (intro nth_equalityI) auto
  moreover have "ba = a" using f(3,5) wrap_hits_every_index[of _ "length a" x]
    by (intro nth_equalityI) auto
  ultimately show ?thesis using f(1) by (simp add: tpx_at_def)
qed

text \<open>
  Claim C9. For parents of equal size both children have the size of the parents, for
  every factor and every start; with \<open>xFactor = 1\<close> the first child is \<open>b\<close> and the
  second is \<open>a\<close>, for every start \<open>x\<close> (also one outside the vector, since the loop
  wraps it). The same is stated of every call of \<open>tpx\<close> that returns, and a call on
  non-empty parents returns as soon as the supply holds one draw.
\<close>

theorem tpx_sizes_and_full_swap:
  assumes "length a = length b"
  shows "length (fst (tpx_at a b xFactor x)) = length a
     \<and> length (snd (tpx_at a b xFactor x)) = length b
     \<and> tpx_at a b 1 x = (b, a)
     \<and> (tpx a b xFactor g = Done (c1, c2) g' \<longrightarrow> length c1 = length a \<and> length c2 = length b)
     \<and> (tpx a b 1 g = Done (c1, c2) g' \<longrightarrow> c1 = b \<and> c2 = a)
     \<and> (a \<noteq> [] \<and> ints g \<noteq> [] \<longrightarrow>
          tpx a b xFactor g
            = Done (tpx_at a b xFactor (hd (ints g) mod length a)) (Rng (tl (ints g)) (units g)))"
proof -
  have sizes: "length c1 = length a \<and> length c2 = length b"
    if "tpx a b xFactor g = Done (c1, c2) g'"
  proof -
    from that obtain y where "tpx_at a b xFactor y = (c1, c2)"
      by (auto simp: tpx_def split: res.splits)
    then show ?thesis using tpx_at_sizes[OF assms, of xFactor y] by simp
  qed
  have swap: "c1 = b \<and> c2 = a" if "tpx a b 1 g = Done (c1, c2) g'"
  proof -
    from that obtain y where "tpx_at a b 1 y = (c1, c2)"
      by (auto simp: tpx_def split: res.splits)
    then show ?thesis using tpx_at_full_swap[OF assms, of y] by simp
  qed
  have returns: "tpx a b xFactor g
            = Done (tpx_at a b xFactor (hd (ints g) mod length a)) (Rng (tl (ints g)) (units g))"
    if "a \<noteq> [] \<and> ints g \<noteq> []"
    using that by (cases "ints g") (simp_all add: tpx_def randInt_def)
  show ?thesis
    using tpx_at_sizes[OF assms, of xFactor x] tpx_at_full_swap[OF assms, of x]
      sizes swap returns by blast
qed

text \<open>
  A run with three bits: start 2 wraps around; half the bits are enough here
  because the parents differ at position 0 only.
\<close>

theorem tpx_sizes_and_full_swap_witness:
  "length [True, False, True] = length [False, False, True]
   \<and> tpx [True, False, True] [False, False, True] 1 (Rng [2] [])
       = Done ([False, False, True], [True, False, True]) (Rng [] [])
   \<and> tpx [True, False, True] [False, False, True] (1 / 2) (Rng [2] [])
       = Done ([False, False, True], [True, False, True]) (Rng [] [])"
proof -
  have l: "length [True, False, True] = length [False, False, True]" by simp
  have e: "tpx [True, False, True] [False, False, True] 1 (Rng [2] [])
       = Done ([False, False, True], [True, False, True]) (Rng [] [])"
    by code_simp
  have e2: "tpx [True, False, True] [False, False, True] (1 / 2) (Rng [2] [])
       = Done ([False, False, True], [True, False, True]) (Rng [] [])"
    by code_simp
  from tpx_sizes_and_full_swap[OF l, of 1 0 "Rng [2] []" "[False, False, True]" "[True, False, True]" "Rng [] []"] e e2
  show ?thesis by simp
qed

section \<open>The ROW heuristic: row selection and improvement\<close>

lemma scenario_built:
  "new_SPProblem 3 [[0], [1], [2], [0, 1, 2]] [1, 1, 1, 1] 1
     = ([[0], [1], [2], [0, 1, 2]], Inr scenario)"
  by code_simp

lemma Ri_covers:
  assumes "new_SPProblem m ss cs pf = (ss', Inr P)" and "k < m"
  shows "set (Ri P ! k) = {j. j < length ss \<and> k \<in> set (ss ! j)}"
proof -
  have "Ri P ! k = concat (map (\<lambda>j. replicate (count_list (ss ! j) k) j) [0..<length ss])"
    using new_SPProblem_Inr(9)[OF assms(1)] assms(2) by simp
  then show ?thesis by (auto simp: count_list_0_iff)
qed

lemma max_row_fold:
  "rs \<noteq> [] \<Longrightarrow>
   \<exists>i<length rs.
      foldl (\<lambda>mx row. let r = selected_of s row in if length r > length mx then r else mx) [] rs
        = selected_of s (rs ! i)
      \<and> (\<forall>k<length rs. length (selected_of s (rs ! k)) \<le> length (selected_of s (rs ! i)))
      \<and> (\<forall>k<i. length (selected_of s (rs ! k)) < length (selected_of s (rs ! i)))"
proof (induction rs rule: rev_nonempty_induct)
  case (single r)
  show ?case by (cases "selected_of s r") (simp_all add: Let_def)
next
  case (snoc r rs)
  let ?f = "foldl (\<lambda>mx row. let r = selected_of s row in if length r > length mx then r else mx) []"
  from snoc.IH obtain i where i: "i < length rs" "?f rs = selected_of s (rs ! i)"
    "\<forall>k<length rs. length (selected_of s (rs ! k)) \<le> length (selected_of s (rs ! i))"
    "\<forall>k<i. length (selected_of s (rs ! k)) < length (selected_of s (rs ! i))" by blast
  show ?case
  proof (cases "length (selected_of s r) > length (selected_of s (rs ! i))")
    case True
    have "?f (rs @ [r]) = selected_of s ((rs @ [r]) ! length rs)"
      using True i(2) by (simp add: Let_def)
    moreover have "\<forall>k<length (rs @ [r]).
        length (selected_of s ((rs @ [r]) ! k)) \<le> length (selected_of s ((rs @ [r]) ! length rs))"
      using True i(3) by (auto simp: nth_append less_Suc_eq)
    moreover have "\<forall>k<length rs.
        length (selected_of s ((rs @ [r]) ! k)) < length (selected_of s ((rs @ [r]) ! length rs))"
      using True i(3) by (auto simp: nth_append)
    ultimately show ?thesis by (intro exI[of _ "length rs"]) simp
  next
    case False
    have "?f (rs @ [r]) = selected_of s ((rs @ [r]) ! i)"
      using False i(1,2) by (simp add: Let_def nth_append)
    moreover have "\<forall>k<length (rs @ [r]).
        length (selected_of s ((rs @ [r]) ! k)) \<le> length (selected_of s ((rs @ [r]) ! i))"
      using False i(1,3) by (auto simp: nth_append less_Suc_eq)
    moreover have "\<forall>k<i.
        length (selected_of s ((rs @ [r]) ! k)) < length (selected_of s ((rs @ [r]) ! i))"
      using i(1,4) by (auto simp: nth_append)
    ultimately show ?thesis using i(1) by (intro exI[of _ i]) simp
  qed
qed



lemma flip_flip: "flip (flip s c) c = s"
  by (cases "c < length s") (simp_all add: flip_def list_update_beyond)

lemma best_loop:
  "\<exists>bc best. foldl (best_step P cols) (s, bc0, None) [0..<k] = (s, bc, best)
     \<and> (best = None \<longrightarrow> bc = bc0 \<and> (\<forall>i<k. \<not> value_of P (flip s (cols ! i)) < bc0))
     \<and> (\<forall>b. best = Some b \<longrightarrow> b < k \<and> bc = value_of P (flip s (cols ! b)) \<and> bc < bc0
            \<and> (\<forall>i<k. bc \<le> value_of P (flip s (cols ! i))))"
proof (induction k)
  case 0
  then show ?case by simp
next
  case (Suc k)
  then obtain bc best where ih:
    "foldl (best_step P cols) (s, bc0, None) [0..<k] = (s, bc, best)"
    "best = None \<longrightarrow> bc = bc0 \<and> (\<forall>i<k. \<not> value_of P (flip s (cols ! i)) < bc0)"
    "\<forall>b. best = Some b \<longrightarrow> b < k \<and> bc = value_of P (flip s (cols ! b)) \<and> bc < bc0
            \<and> (\<forall>i<k. bc \<le> value_of P (flip s (cols ! i)))"
    by blast
  let ?v = "value_of P (flip s (cols ! k))"
  show ?case
  proof (cases "?v < bc")
    case True
    then have f: "foldl (best_step P cols) (s, bc0, None) [0..<Suc k] = (s, ?v, Some k)"
      using ih(1) by (simp add: best_step_def flip_flip Let_def)
    have "?v < bc0" using True ih(2,3) by (cases best) auto
    moreover have "\<forall>i<Suc k. ?v \<le> value_of P (flip s (cols ! i))"
    proof (intro allI impI)
      fix i assume "i < Suc k"
      then consider "i = k" | "i < k" by linarith
      then show "?v \<le> value_of P (flip s (cols ! i))"
      proof cases
        case 1
        then show ?thesis by simp
      next
        case 2
        then show ?thesis using True ih(2,3) by (cases best) force+
      qed
    qed
    ultimately show ?thesis using f by simp
  next
    case False
    then have f: "foldl (best_step P cols) (s, bc0, None) [0..<Suc k] = (s, bc, best)"
      using ih(1) by (simp add: best_step_def flip_flip Let_def)
    have a: "best = None \<longrightarrow> bc = bc0 \<and> (\<forall>i<Suc k. \<not> value_of P (flip s (cols ! i)) < bc0)"
      using False ih(2) by (auto simp: less_Suc_eq)
    have b: "\<forall>b. best = Some b \<longrightarrow> b < Suc k \<and> bc = value_of P (flip s (cols ! b)) \<and> bc < bc0
            \<and> (\<forall>i<Suc k. bc \<le> value_of P (flip s (cols ! i)))"
      using False ih(3) by (auto simp: less_Suc_eq)
    from f a b show ?thesis by blast
  qed
qed

lemma first_loop_None:
  "first_loop P cols s bc = None \<Longrightarrow> \<forall>i<length cols. \<not> value_of P (flip s (cols ! i)) < bc"
proof (induction cols)
  case Nil
  then show ?case by simp
next
  case (Cons c cols)
  then show ?case
    by (auto simp: Let_def flip_flip less_Suc_eq_0_disj split: if_splits)
qed

lemma first_loop_Some:
  "first_loop P cols s bc = Some r \<Longrightarrow>
   \<exists>i<length cols. r = flip s (cols ! i) \<and> value_of P r < bc
      \<and> (\<forall>k<i. \<not> value_of P (flip s (cols ! k)) < bc)"
proof (induction cols)
  case Nil
  then show ?case by simp
next
  case (Cons c cols)
  show ?case
  proof (cases "value_of P (flip s c) < bc")
    case True
    with Cons.prems have "r = flip s c" by (simp add: Let_def)
    with True show ?thesis by (intro exI[of _ 0]) simp
  next
    case False
    with Cons.prems have "first_loop P cols s bc = Some r" by (simp add: Let_def flip_flip)
    from Cons.IH[OF this] obtain i where i: "i < length cols" "r = flip s (cols ! i)"
      "value_of P r < bc" "\<forall>k<i. \<not> value_of P (flip s (cols ! k)) < bc" by blast
    have "\<forall>k<Suc i. \<not> value_of P (flip s ((c # cols) ! k)) < bc"
      using False i(4) by (auto simp: less_Suc_eq_0_disj)
    with i show ?thesis by (intro exI[of _ "Suc i"]) simp
  qed
qed

lemma improve_cases:
  assumes "improve P s ist rss g = Done s' g'"
  obtains cols where "selectRow P s rss g = Done cols g'"
    and "ist = IS_Best \<Longrightarrow>
           (\<exists>b<length cols. s' = flip s (cols ! b) \<and> value_of P s' < value_of P s
               \<and> (\<forall>i<length cols. value_of P s' \<le> value_of P (flip s (cols ! i))))
           \<or> (s' = s \<and> (\<forall>i<length cols. \<not> value_of P (flip s (cols ! i)) < value_of P s))"
    and "ist \<noteq> IS_Best \<Longrightarrow>
           (\<exists>b<length cols. s' = flip s (cols ! b) \<and> value_of P s' < value_of P s
               \<and> (\<forall>i<b. \<not> value_of P (flip s (cols ! i)) < value_of P s))
           \<or> (s' = s \<and> (\<forall>i<length cols. \<not> value_of P (flip s (cols ! i)) < value_of P s))"
proof -
  from assms obtain cols where c: "selectRow P s rss g = Done cols g'"
    by (auto simp: improve_def Let_def split: res.splits if_splits prod.splits option.splits)
  have B: "(\<exists>b<length cols. s' = flip s (cols ! b) \<and> value_of P s' < value_of P s
               \<and> (\<forall>i<length cols. value_of P s' \<le> value_of P (flip s (cols ! i))))
           \<or> (s' = s \<and> (\<forall>i<length cols. \<not> value_of P (flip s (cols ! i)) < value_of P s))"
    if "ist = IS_Best"
  proof -
    from best_loop[of P cols s "value_of P s" "length cols"] obtain bc best where l:
      "foldl (best_step P cols) (s, value_of P s, None) [0..<length cols] = (s, bc, best)"
      "best = None \<longrightarrow> bc = value_of P s
          \<and> (\<forall>i<length cols. \<not> value_of P (flip s (cols ! i)) < value_of P s)"
      "\<forall>b. best = Some b \<longrightarrow> b < length cols \<and> bc = value_of P (flip s (cols ! b))
          \<and> bc < value_of P s \<and> (\<forall>i<length cols. bc \<le> value_of P (flip s (cols ! i)))"
      by blast
    show ?thesis
    proof (cases best)
      case None
      with assms c l(1) that have "s' = s" by (simp add: improve_def Let_def)
      with None l(2) show ?thesis by simp
    next
      case (Some b)
      with assms c l(1) that have "s' = flip s (cols ! b)" by (simp add: improve_def Let_def)
      with Some l(3) show ?thesis by auto
    qed
  qed
  have F: "(\<exists>b<length cols. s' = flip s (cols ! b) \<and> value_of P s' < value_of P s
               \<and> (\<forall>i<b. \<not> value_of P (flip s (cols ! i)) < value_of P s))
           \<or> (s' = s \<and> (\<forall>i<length cols. \<not> value_of P (flip s (cols ! i)) < value_of P s))"
    if "ist \<noteq> IS_Best"
  proof (cases "first_loop P cols s (value_of P s)")
    case None
    with assms c that have "s' = s" by (simp add: improve_def Let_def)
    with first_loop_None[OF None] show ?thesis by simp
  next
    case (Some r)
    with assms c that have "s' = r" by (simp add: improve_def Let_def)
    with first_loop_Some[OF Some] show ?thesis by auto
  qed
  from c B F that show thesis by blast
qed

lemma improve_not_worse:
  "improve P s ist rss g = Done s' g' \<Longrightarrow> value_of P s' \<le> value_of P s"
  by (erule improve_cases, cases "ist = IS_Best") auto

lemma selectRow_in_range:
  assumes "new_SPProblem m ss cs pf = (ss', Inr P)"
    and "selectRow P s rss g = Done cols g'"
  shows "\<forall>c\<in>set cols. c < length ss"
proof (cases "rss = RSS_Max")
  case True
  show ?thesis
  proof (cases "m = 0")
    case True
    then have "Ri P = []" using new_SPProblem_Inr(7)[OF assms(1)] by simp
    with assms(2) \<open>rss = RSS_Max\<close> show ?thesis by (simp add: selectRow_def)
  next
    case False
    then have "Ri P \<noteq> []" using new_SPProblem_Inr(7)[OF assms(1)] by auto
    from max_row_fold[OF this, of s] obtain i where
      "i < length (Ri P)" "cols = selected_of s (Ri P ! i)"
      using assms(2) True by (auto simp: selectRow_def)
    then show ?thesis
      using Ri_covers[OF assms(1), of i] new_SPProblem_Inr(7)[OF assms(1)]
      by (auto simp: selected_of_def)
  qed
next
  case False
  with assms(2) obtain k where "k < length (Ri P)" "cols = selected_of s (Ri P ! k)"
    by (auto simp: selectRow_def split: res.splits if_splits)
  then show ?thesis
    using Ri_covers[OF assms(1), of k] new_SPProblem_Inr(7)[OF assms(1)]
    by (auto simp: selected_of_def)
qed

lemma improve_returns:
  assumes "rss = RSS_Max \<or> (0 < rows P \<and> length (Ri P) = rows P \<and> ints g \<noteq> [])"
  shows "\<exists>s' g'. improve P s ist rss g = Done s' g'"
proof -
  have "\<exists>cols g'. selectRow P s rss g = Done cols g'"
    using assms by (cases "ints g") (auto simp: selectRow_def randInt_def)
  then obtain cols g' where c: "selectRow P s rss g = Done cols g'" by blast
  show ?thesis
    by (cases "foldl (best_step P cols) (s, value_of P s, None) [0..<length cols]";
        cases "first_loop P cols s (value_of P s)")
       (auto simp: improve_def c Let_def split: option.splits)
qed

text \<open>
  Claim C3. For a constructed problem and a solution of its size: \<open>improve\<close> returns for
  the Max strategy, and for the Random strategy when there is a row and a draw; whatever
  it returns has a fitness not above that of \<open>s\<close> and the size of \<open>s\<close>. With \<open>cols\<close>
  the list of the selected row (all of them indices of \<open>s\<close>): if some flip of one
  index of \<open>cols\<close> strictly lowers the fitness, Best returns \<open>s\<close> with one flip applied
  whose fitness is the lowest of all flips, and First returns \<open>s\<close> with the first
  strictly improving flip applied; if no flip strictly lowers the fitness, both return
  \<open>s\<close> itself.
\<close>

theorem improve_never_worsens:
  assumes "new_SPProblem m ss cs pf = (ss', Inr P)" and "length s = length ss"
  shows "(rss = RSS_Max \<or> (0 < m \<and> ints g \<noteq> []) \<longrightarrow> (\<exists>s' g'. improve P s ist rss g = Done s' g'))
    \<and> (\<forall>s' g'. improve P s ist rss g = Done s' g' \<longrightarrow>
          value_of P s' \<le> value_of P s \<and> length s' = length s
          \<and> (\<exists>cols. selectRow P s rss g = Done cols g' \<and> (\<forall>c\<in>set cols. c < length s)
               \<and> (ist = IS_Best \<and> (\<exists>i<length cols. value_of P (flip s (cols ! i)) < value_of P s) \<longrightarrow>
                    (\<exists>b<length cols. s' = flip s (cols ! b) \<and> value_of P s' < value_of P s
                        \<and> (\<forall>i<length cols. value_of P s' \<le> value_of P (flip s (cols ! i)))))
               \<and> (ist = IS_First \<and> (\<exists>i<length cols. value_of P (flip s (cols ! i)) < value_of P s) \<longrightarrow>
                    (\<exists>b<length cols. s' = flip s (cols ! b) \<and> value_of P s' < value_of P s
                        \<and> (\<forall>i<b. \<not> value_of P (flip s (cols ! i)) < value_of P s)))
               \<and> ((\<forall>i<length cols. \<not> value_of P (flip s (cols ! i)) < value_of P s) \<longrightarrow> s' = s)))"
proof (intro conjI allI impI)
  assume "rss = RSS_Max \<or> (0 < m \<and> ints g \<noteq> [])"
  then show "\<exists>s' g'. improve P s ist rss g = Done s' g'"
    using improve_returns[of rss P g s ist] new_SPProblem_Inr(5,7)[OF assms(1)] by auto
next
  fix s' g' assume i: "improve P s ist rss g = Done s' g'"
  show "value_of P s' \<le> value_of P s" by (rule improve_not_worse[OF i])
  from i show "length s' = length s"
    by (rule improve_cases) (cases "ist = IS_Best"; auto simp: flip_def)
  from i show "\<exists>cols. selectRow P s rss g = Done cols g' \<and> (\<forall>c\<in>set cols. c < length s)
               \<and> (ist = IS_Best \<and> (\<exists>i<length cols. value_of P (flip s (cols ! i)) < value_of P s) \<longrightarrow>
                    (\<exists>b<length cols. s' = flip s (cols ! b) \<and> value_of P s' < value_of P s
                        \<and> (\<forall>i<length cols. value_of P s' \<le> value_of P (flip s (cols ! i)))))
               \<and> (ist = IS_First \<and> (\<exists>i<length cols. value_of P (flip s (cols ! i)) < value_of P s) \<longrightarrow>
                    (\<exists>b<length cols. s' = flip s (cols ! b) \<and> value_of P s' < value_of P s
                        \<and> (\<forall>i<b. \<not> value_of P (flip s (cols ! i)) < value_of P s)))
               \<and> ((\<forall>i<length cols. \<not> value_of P (flip s (cols ! i)) < value_of P s) \<longrightarrow> s' = s)"
  proof (rule improve_cases)
    fix cols
    assume c: "selectRow P s rss g = Done cols g'"
      and B: "ist = IS_Best \<Longrightarrow>
           (\<exists>b<length cols. s' = flip s (cols ! b) \<and> value_of P s' < value_of P s
               \<and> (\<forall>i<length cols. value_of P s' \<le> value_of P (flip s (cols ! i))))
           \<or> (s' = s \<and> (\<forall>i<length cols. \<not> value_of P (flip s (cols ! i)) < value_of P s))"
      and F: "ist \<noteq> IS_Best \<Longrightarrow>
           (\<exists>b<length cols. s' = flip s (cols ! b) \<and> value_of P s' < value_of P s
               \<and> (\<forall>i<b. \<not> value_of P (flip s (cols ! i)) < value_of P s))
           \<or> (s' = s \<and> (\<forall>i<length cols. \<not> value_of P (flip s (cols ! i)) < value_of P s))"
    have r: "\<forall>c\<in>set cols. c < length s"
      using selectRow_in_range[OF assms(1) c] assms(2) by simp
    have n: "s' = s" if "\<forall>i<length cols. \<not> value_of P (flip s (cols ! i)) < value_of P s"
      using that B F by (cases "ist = IS_Best") auto
    show ?thesis
    proof (cases "ist = IS_Best")
      case True
      with B c r n show ?thesis by (intro exI[of _ cols]) auto
    next
      case False
      then have "ist = IS_First" by (cases ist) auto
      with F c r n show ?thesis by (intro exI[of _ cols]) auto
    qed
  qed
qed

text \<open>
  In the scenario, selecting sets 0 and 3 covers row 0 twice (fitness 3); Best on the
  Max row drops set 0 (fitness 1). First on the random row 1 finds no improving flip
  and returns the solution unchanged.
\<close>

theorem improve_never_worsens_witness:
  "improve scenario [True, False, False, True] IS_Best RSS_Max (Rng [] [])
     = Done [False, False, False, True] (Rng [] [])
   \<and> value_of scenario [True, False, False, True] = 3
   \<and> value_of scenario [False, False, False, True] = 1
   \<and> value_of scenario [False, False, False, True] \<le> value_of scenario [True, False, False, True]
   \<and> improve scenario [True, False, False, True] IS_First RSS_Random (Rng [1] [])
     = Done [True, False, False, True] (Rng [] [])"
proof -
  have l: "length [True, False, False, True] = length [[0], [1], [2], [0, 1, 2::nat]]" by simp
  have e: "improve scenario [True, False, False, True] IS_Best RSS_Max (Rng [] [])
     = Done [False, False, False, True] (Rng [] [])"
    by code_simp
  have f: "improve scenario [True, False, False, True] IS_First RSS_Random (Rng [1] [])
     = Done [True, False, False, True] (Rng [] [])"
    by code_simp
  have v: "value_of scenario [True, False, False, True] = 3"
    "value_of scenario [False, False, False, True] = 1"
    by code_simp+
  from improve_never_worsens[OF scenario_built l, of RSS_Max "Rng [] []" IS_Best] e
  have "value_of scenario [False, False, False, True] \<le> value_of scenario [True, False, False, True]"
    by blast
  with e f v show ?thesis by simp
qed

section \<open>Fitness and feasibility\<close>

lemma cover_count_card:
  "cover_count ss s i = card {j. j < length ss \<and> s ! j \<and> i \<in> set (ss ! j)}"
proof -
  have "set (filter (\<lambda>j. s ! j \<and> i \<in> set (ss ! j)) [0..<length ss])
        = {j. j < length ss \<and> s ! j \<and> i \<in> set (ss ! j)}" by auto
  moreover have "distinct (filter (\<lambda>j. s ! j \<and> i \<in> set (ss ! j)) [0..<length ss])" by simp
  ultimately show ?thesis unfolding cover_count_def by (metis distinct_card)
qed

lemma selected_cost_sum:
  "selected_cost cs s = (\<Sum>j\<in>{j. j < length s \<and> s ! j}. cs ! j)"
proof -
  have "set (filter (\<lambda>j. s ! j) [0..<length s]) = {j. j < length s \<and> s ! j}" by auto
  moreover have "distinct (filter (\<lambda>j. s ! j) [0..<length s])" by simp
  ultimately show ?thesis unfolding selected_cost_def
    by (metis sum_list_distinct_conv_sum_set)
qed









lemma mark_rows_char:
  assumes "distinct rs" and "\<forall>r\<in>set rs. r < length bs"
  shows "if \<exists>r\<in>set rs. bs ! r then mark_rows rs bs = None
         else \<exists>bs'. mark_rows rs bs = Some bs' \<and> length bs' = length bs
                \<and> (\<forall>i<length bs. bs' ! i = (bs ! i \<or> i \<in> set rs))"
  using assms
proof (induction rs arbitrary: bs)
  case Nil
  then show ?case by simp
next
  case (Cons r rs)
  show ?case
  proof (cases "bs ! r")
    case True
    then show ?thesis by simp
  next
    case False
    let ?bs1 = "bs[r := True]"
    from Cons.prems have d: "distinct rs" and nr: "r \<notin> set rs" and r: "r < length bs"
      and rg: "\<forall>q\<in>set rs. q < length ?bs1" by simp_all
    have same: "(\<exists>q\<in>set rs. ?bs1 ! q) \<longleftrightarrow> (\<exists>q\<in>set rs. bs ! q)"
      using nr by (metis nth_list_update_neq)
    note ih = Cons.IH[OF d rg]
    show ?thesis
    proof (cases "\<exists>q\<in>set rs. bs ! q")
      case True
      with ih same have "mark_rows rs ?bs1 = None" by simp
      with True False show ?thesis by simp
    next
      case no: False
      with ih same obtain bs' where b: "mark_rows rs ?bs1 = Some bs'" "length bs' = length bs"
        "\<forall>i<length bs. bs' ! i = (?bs1 ! i \<or> i \<in> set rs)" by auto
      have "\<forall>i<length bs. bs' ! i = (bs ! i \<or> i \<in> set (r # rs))"
        using b(3) r by (auto simp: nth_list_update)
      with b(1,2) no False show ?thesis by simp
    qed
  qed
qed

lemma validate_loop_char:
  assumes "distinct idxs"
    and "\<forall>j\<in>set idxs. distinct (sets P ! j) \<and> (\<forall>r\<in>set (sets P ! j). r < length bs)"
  shows "validate_loop P s idxs bs \<longleftrightarrow>
         (\<forall>i<length bs. (if bs ! i then 1 else 0)
              + length (filter (\<lambda>j. s ! j \<and> i \<in> set (sets P ! j)) idxs) = (1::nat))"
  using assms
proof (induction idxs arbitrary: bs)
  case Nil
  then show ?case by (auto simp: list_all_length)
next
  case (Cons j idxs)
  from Cons.prems have d: "distinct idxs" and dj: "distinct (sets P ! j)"
    and rj: "\<forall>r\<in>set (sets P ! j). r < length bs"
    and rest: "\<forall>k\<in>set idxs. distinct (sets P ! k) \<and> (\<forall>r\<in>set (sets P ! k). r < length bs)"
    by simp_all
  let ?c = "\<lambda>i. length (filter (\<lambda>j. s ! j \<and> i \<in> set (sets P ! j)) idxs)"
  show ?case
  proof (cases "s ! j")
    case False
    then show ?thesis using Cons.IH[OF d rest] by simp
  next
    case True
    note m = mark_rows_char[OF dj rj]
    show ?thesis
    proof (cases "\<exists>r\<in>set (sets P ! j). bs ! r")
      case hit: True
      with m have "mark_rows (sets P ! j) bs = None" by simp
      then have l: "\<not> validate_loop P s (j # idxs) bs" using True by simp
      from hit obtain r where r: "r \<in> set (sets P ! j)" "bs ! r" by blast
      then have "r < length bs" using rj by simp
      moreover have "(if bs ! r then 1 else 0)
          + length (filter (\<lambda>j. s ! j \<and> r \<in> set (sets P ! j)) (j # idxs)) \<noteq> (1::nat)"
        using r True by simp
      ultimately show ?thesis using l by blast
    next
      case miss: False
      with m obtain bs' where b: "mark_rows (sets P ! j) bs = Some bs'" "length bs' = length bs"
        "\<forall>i<length bs. bs' ! i = (bs ! i \<or> i \<in> set (sets P ! j))" by auto
      have rest': "\<forall>k\<in>set idxs. distinct (sets P ! k) \<and> (\<forall>r\<in>set (sets P ! k). r < length bs')"
        using rest b(2) by simp
      have "validate_loop P s (j # idxs) bs \<longleftrightarrow> validate_loop P s idxs bs'"
        using True b(1) by simp
      also have "\<dots> \<longleftrightarrow> (\<forall>i<length bs. (if bs' ! i then 1 else 0) + ?c i = (1::nat))"
        using Cons.IH[OF d rest'] b(2) by simp
      also have "\<dots> \<longleftrightarrow> (\<forall>i<length bs. (if bs ! i then 1 else 0)
              + length (filter (\<lambda>j. s ! j \<and> i \<in> set (sets P ! j)) (j # idxs)) = (1::nat))"
      proof (intro all_cong1 imp_cong refl)
        fix i assume i: "i < length bs"
        have "(if bs' ! i then 1 else 0) = (if bs ! i then 1 else 0)
                + (if i \<in> set (sets P ! j) then 1 else (0::nat))"
          using b(3) i miss by auto
        then show "((if bs' ! i then 1 else 0) + ?c i = (1::nat)) \<longleftrightarrow>
            ((if bs ! i then 1 else 0)
              + length (filter (\<lambda>j. s ! j \<and> i \<in> set (sets P ! j)) (j # idxs)) = (1::nat))"
          using True by simp
      qed
      finally show ?thesis .
    qed
  qed
qed

lemma validate_iff_exact_cover:
  assumes "new_SPProblem m ss cs pf = (ss', Inr P)" and "\<forall>st\<in>set ss. distinct st"
  shows "validate P s \<longleftrightarrow> (\<forall>i<m. cover_count ss s i = 1)"
proof -
  note c = new_SPProblem_Inr[OF assms(1)]
  have set_eq: "set (sets P ! j) = set (ss ! j)" if "j < length ss" for j
    using that c(3) by simp
  have "\<forall>j\<in>set [0..<n_sets P]. distinct (sets P ! j)
            \<and> (\<forall>r\<in>set (sets P ! j). r < length (replicate (rows P) False))"
    using c(3,5,8) assms(2) by (auto simp: n_sets_def)
  from validate_loop_char[OF _ this, of s] have
    "validate P s \<longleftrightarrow> (\<forall>i<m. length (filter (\<lambda>j. s ! j \<and> i \<in> set (sets P ! j)) [0..<length ss]) = 1)"
    using c(3,5) by (simp add: validate_def n_sets_def)
  moreover have "filter (\<lambda>j. s ! j \<and> i \<in> set (sets P ! j)) [0..<length ss]
               = filter (\<lambda>j. s ! j \<and> i \<in> set (ss ! j)) [0..<length ss]" for i
    using set_eq by (intro filter_cong) auto
  ultimately show ?thesis by (simp add: cover_count_def)
qed




text \<open>
  Claim C2, as the code has it. For a constructed problem none of whose sets names a
  row twice, and a solution of the problem's size: \<open>validate\<close> accepts exactly the
  solutions in which every row below \<open>rows\<close> is covered by exactly one selected set.
\<close>

theorem validate_exact_cover:
  assumes "new_SPProblem m ss cs pf = (ss', Inr P)" and "\<forall>st\<in>set ss. distinct st"
    and "length s = length ss"
  shows "validate P s \<longleftrightarrow> (\<forall>i<m. cover_count ss s i = 1)"
  by (rule validate_iff_exact_cover[OF assms(1,2)])

text \<open>
  The spec's scenario: the three singletons and the full set are exact covers; sets 0
  and 3 together cover row 0 twice; set 0 alone leaves row 1 uncovered.
\<close>

theorem validate_exact_cover_witness:
  "validate scenario [True, True, True, False]
   \<and> validate scenario [False, False, False, True]
   \<and> \<not> validate scenario [True, False, False, True]
   \<and> cover_count [[0], [1], [2], [0, 1, 2]] [True, False, False, True] 0 = 2
   \<and> \<not> validate scenario [True, False, False, False]
   \<and> cover_count [[0], [1], [2], [0, 1, 2]] [True, False, False, False] 1 = 0"
proof -
  have d: "\<forall>st\<in>set [[0], [1], [2], [0, 1, 2::nat]]. distinct st" by simp
  have l: "length [True, False, False, True] = length [[0], [1], [2], [0, 1, 2::nat]]" by simp
  have c: "cover_count [[0], [1], [2], [0, 1, 2]] [True, False, False, True] 0 = 2"
    "cover_count [[0], [1], [2], [0, 1, 2]] [True, False, False, False] 1 = 0"
    by code_simp+
  have v: "validate scenario [True, True, True, False]"
    "validate scenario [False, False, False, True]"
    "\<not> validate scenario [True, False, False, False]"
    by code_simp+
  have "(0::nat) < 3" by simp
  with validate_exact_cover[OF scenario_built d l] c(1)
  have "\<not> validate scenario [True, False, False, True]" by force
  with c v show ?thesis by simp
qed

text \<open>
  The claim as worded fails when a set names a row twice: the second occurrence finds the
  row already marked, so the exact cover by the single set \<open>[0, 0]\<close> is rejected.
\<close>

theorem validate_rejects_repeated_row:
  "new_SPProblem 1 [[0, 0]] [1] 1
     = ([[0, 0]], Inr \<lparr>rows = 1, sets = [[0, 0]], costs = [1], averageNonZeros = 2,
                         Ri = [[0, 0]], penalty = 1\<rparr>)
   \<and> \<not> validate \<lparr>rows = 1, sets = [[0, 0]], costs = [1], averageNonZeros = 2,
                    Ri = [[0, 0]], penalty = 1\<rparr> [True]
   \<and> cover_count [[0, 0]] [True] 0 = 1"
  by code_simp

section \<open>Random generation\<close>




lemma randInt_Done:
  "randInt lo hi g = Done v g' \<Longrightarrow>
   lo \<le> v \<and> v < hi \<and> (\<exists>d ds. ints g = d # ds \<and> v = lo + d mod (hi - lo) \<and> g' = Rng ds (units g))"
proof -
  assume a: "randInt lo hi g = Done v g'"
  then have lt: "lo < hi" by (auto simp: randInt_def split: if_splits)
  from a obtain d ds where d: "ints g = d # ds" "v = lo + d mod (hi - lo)" "g' = Rng ds (units g)"
    by (auto simp: randInt_def split: if_splits list.splits)
  have "d mod (hi - lo) < hi - lo" using lt by simp
  then have "v < hi" using d(2) by linarith
  with d show ?thesis by simp
qed









section \<open>The problem's crossover\<close>

text \<open>
  The length drawn by \<open>draw_distance\<close> lies in \<open>[1, size - 1)\<close>. For such a length and a
  start below the size, \<open>inRange\<close> holds on the indices \<open>x + 1, ..., x + distance - 1\<close> when
  the window does not wrap, and on \<open>x + 1, ..., x + distance\<close> (wrapped) when it does: the
  start itself is never in range.
\<close>

lemma draw_distance_Done:
  "draw_distance k g = Done d g' \<Longrightarrow> 1 \<le> d \<and> d < k - 1"
proof (induction k g rule: draw_distance.induct)
  case (1 k g)
  from "1.prems" obtain v g1 where r: "randInt 0 (k - 1) g = Done v g1"
    by (auto simp: draw_distance.simps[of k g] split: res.splits)
  show ?case
  proof (cases "v = 0")
    case True
    with r "1.prems" have "draw_distance k g1 = Done d g'"
      by (simp add: draw_distance.simps[of k g])
    from "1.IH"[OF r True this] show ?thesis .
  next
    case False
    with r "1.prems" have "d = v" by (simp add: draw_distance.simps[of k g])
    with False randInt_Done[OF r] show ?thesis by simp
  qed
qed

lemma inRange_window:
  assumes "n_sets P = n" and "x < n" and "1 \<le> d" and "d < n" and "i < n"
  shows "inRange P x d i x d \<longleftrightarrow>
           (if x + d < n then x < i \<and> i < x + d else x < i \<or> i \<le> x + d - n)"
proof (cases "x + d < n")
  case True
  then show ?thesis using assms by (auto simp: inRange_def)
next
  case False
  then have "(x + d) mod n = x + d - n" using assms(2,4)
    by (simp add: mod_if)
  then show ?thesis using False assms by (auto simp: inRange_def)
qed

text \<open>
  In a run where no mutation fires, with parents of the problem's size \<open>n\<close> (at least 3,
  so that a non-zero length can be drawn), the first child takes the bit of \<open>b\<close> exactly on
  the indices where \<open>inRange\<close> holds and the bit of \<open>a\<close> elsewhere, and the second child
  the other way round (\<open>crossover_quiet\<close>); by \<open>inRange_window\<close> these are the indices
  described above, not the window that starts at \<open>x\<close>.
\<close>

lemma mutated_quiet:
  "\<not> fires P u \<Longrightarrow> mutated P v (Rng ds (u # us)) = Done v (Rng ds us)"
  by (simp add: mutated_def random_def)

lemma cross_loop_quiet:
  "\<forall>u\<in>set us. \<not> fires P u \<Longrightarrow> 2 * length idxs \<le> length us \<Longrightarrow>
   cross_loop P a b x d idxs ab ba (Rng ds us)
     = Done (fold (\<lambda>i l. l[i := if inRange P x d i x d then b ! i else a ! i]) idxs ab,
             fold (\<lambda>i l. l[i := if inRange P x d i x d then a ! i else b ! i]) idxs ba)
         (Rng ds (drop (2 * length idxs) us))"
proof (induction idxs arbitrary: ab ba us)
  case Nil
  then show ?case by simp
next
  case (Cons i idxs)
  from Cons.prems(2) obtain u1 u2 rest where us: "us = u1 # u2 # rest"
    by (cases us; cases "tl us") auto
  with Cons.prems have q: "\<not> fires P u1" "\<not> fires P u2" "\<forall>u\<in>set rest. \<not> fires P u"
    and l: "2 * length idxs \<le> length rest" by simp_all
  show ?case
    by (cases "inRange P x d i x d")
       (simp_all add: us mutated_quiet[OF q(1)] mutated_quiet[OF q(2)] Cons.IH[OF q(3) l])
qed

lemma fold_update_upt:
  "k \<le> length l \<Longrightarrow>
   fold (\<lambda>i l. l[i := f i]) [0..<k] l = map f [0..<k] @ drop k l"
proof (induction k)
  case 0
  then show ?case by simp
next
  case (Suc k)
  then have k: "k < length l" by simp
  have "fold (\<lambda>i l. l[i := f i]) [0..<Suc k] l = (map f [0..<k] @ drop k l)[k := f k]"
    using Suc by simp
  also have "\<dots> = map f [0..<k] @ (drop k l)[0 := f k]"
    by (simp add: list_update_append)
  also have "drop k l = l ! k # drop (Suc k) l" using k by (simp add: Cons_nth_drop_Suc)
  finally show ?case by simp
qed

lemma crossover_quiet:
  assumes "length a = n" and "length b = n" and "3 \<le> n"
    and "d0 mod (n - 1) \<noteq> 0" and "\<forall>u\<in>set us. \<not> fires P u" and "2 * n \<le> length us"
  shows "crossover P a b (Rng (x0 # d0 # ds) us)
     = Done (map (\<lambda>i. if inRange P (x0 mod n) (d0 mod (n - 1)) i (x0 mod n) (d0 mod (n - 1))
                        then b ! i else a ! i) [0..<n],
             map (\<lambda>i. if inRange P (x0 mod n) (d0 mod (n - 1)) i (x0 mod n) (d0 mod (n - 1))
                        then a ! i else b ! i) [0..<n])
         (Rng ds (drop (2 * n) us))"
proof -
  have x: "randInt 0 (length a) (Rng (x0 # d0 # ds) us) = Done (x0 mod n) (Rng (d0 # ds) us)"
    using assms(1,3) by (simp add: randInt_def)
  have d: "draw_distance (length a) (Rng (d0 # ds) us) = Done (d0 mod (n - 1)) (Rng ds us)"
    using assms(1,3,4) by (simp add: draw_distance.simps[of _ "Rng (d0 # ds) us"] randInt_def)
  have l: "2 * length [0..<length a] \<le> length us" using assms(1,6) by simp
  have c: "crossover P a b (Rng (x0 # d0 # ds) us)
      = cross_loop P a b (x0 mod n) (d0 mod (n - 1)) [0..<length a]
          (replicate (length a) False) (replicate (length b) False) (Rng ds us)"
    by (simp only: crossover_def x d res.case)
  have f: "fold (\<lambda>i l. l[i := g i]) [0..<n] (replicate n False) = map g [0..<n]"
    for g :: "nat \<Rightarrow> bool"
    using fold_update_upt[of n "replicate n False" g] by simp
  show ?thesis
    unfolding c cross_loop_quiet[OF assms(5) l] using assms(1,2) by (simp only: f length_upt diff_zero)
qed

text \<open>
  Claim C5 on the code, in runs where no mutation fires (every unit draw is \<open>1 / 2\<close>,
  not below \<open>1 / 4\<close>), on parents of size 4. With start 1 and length 2 the claim's
  window is \<open>{1, 2}\<close>; the code swaps index 2 only. With start 3 and length 2 the
  claim's window is \<open>{3, 0}\<close>; the code swaps \<open>{0, 1}\<close>. With start 0 and length 1 the
  claim's window is \<open>{0}\<close>; the code swaps nothing. \<open>window_child\<close> is the first child
  as the claim describes it.
\<close>

theorem crossover_window_is_shifted:
  "crossover scenario [True, True, True, True] [False, False, False, False]
       (Rng [1, 2] [1 / 2, 1 / 2, 1 / 2, 1 / 2, 1 / 2, 1 / 2, 1 / 2, 1 / 2])
     = Done ([True, True, False, True], [False, False, True, False]) (Rng [] [])
   \<and> window_child [True, True, True, True] [False, False, False, False] 1 2
       = [True, False, False, True]
   \<and> crossover scenario [True, True, True, True] [False, False, False, False]
       (Rng [3, 2] [1 / 2, 1 / 2, 1 / 2, 1 / 2, 1 / 2, 1 / 2, 1 / 2, 1 / 2])
     = Done ([False, False, True, True], [True, True, False, False]) (Rng [] [])
   \<and> window_child [True, True, True, True] [False, False, False, False] 3 2
       = [False, True, True, False]
   \<and> crossover scenario [True, True, True, True] [False, False, False, False]
       (Rng [0, 1] [1 / 2, 1 / 2, 1 / 2, 1 / 2, 1 / 2, 1 / 2, 1 / 2, 1 / 2])
     = Done ([True, True, True, True], [False, False, False, False]) (Rng [] [])
   \<and> window_child [True, True, True, True] [False, False, False, False] 0 1
       = [False, True, True, True]"
  by code_simp

section \<open>The driver never ends worse than its initial population\<close>

text \<open>
  The fitness cache stays in step with the population, a replacement puts a strictly
  better child in the place of the member \<open>findWorst\<close> names, and so every member of
  the population before a generation is matched by a member after it that is at least
  as good.
\<close>

lemma improve_n_not_worse:
  "improve_n P k ist rss p g = Done p' g' \<Longrightarrow> value_of P p' \<le> value_of P p"
proof (induction k arbitrary: p g)
  case 0
  then show ?case by simp
next
  case (Suc k)
  from Suc.prems obtain p1 g1 where i: "improve P p ist rss g = Done p1 g1"
    and r: "improve_n P k ist rss p1 g1 = Done p' g'"
    by (auto split: res.splits)
  from Suc.IH[OF r] improve_not_worse[OF i] show ?case by simp
qed

lemma findWorst_fold:
  "0 < k \<Longrightarrow>
   \<exists>j<k. foldl (\<lambda>(k, kValue) i.
                   let iValue = value_of P (population ! i)
                   in if (case kValue of None \<Rightarrow> True | Some kv \<Rightarrow> kv < iValue)
                      then (Some i, Some iValue) else (k, kValue))
            (None, None) [0..<k] = (Some j, Some (value_of P (population ! j)))
        \<and> (\<forall>i<k. value_of P (population ! i) \<le> value_of P (population ! j))"
proof (induction k)
  case 0
  then show ?case by simp
next
  case (Suc k)
  show ?case
  proof (cases "k = 0")
    case True
    then show ?thesis by simp
  next
    case False
    with Suc.IH obtain j where j: "j < k"
      "foldl (\<lambda>(k, kValue) i.
                   let iValue = value_of P (population ! i)
                   in if (case kValue of None \<Rightarrow> True | Some kv \<Rightarrow> kv < iValue)
                      then (Some i, Some iValue) else (k, kValue))
            (None, None) [0..<k] = (Some j, Some (value_of P (population ! j)))"
      "\<forall>i<k. value_of P (population ! i) \<le> value_of P (population ! j)" by auto
    show ?thesis
    proof (cases "value_of P (population ! j) < value_of P (population ! k)")
      case True
      then have "\<forall>i<Suc k. value_of P (population ! i) \<le> value_of P (population ! k)"
        using j(3) by (auto simp: less_Suc_eq)
      then show ?thesis using True j(2) by (intro exI[of _ k]) (simp add: Let_def)
    next
      case False
      then have "\<forall>i<Suc k. value_of P (population ! i) \<le> value_of P (population ! j)"
        using j(3) by (auto simp: less_Suc_eq)
      then show ?thesis using False j(1,2) by (intro exI[of _ j]) (simp add: Let_def)
    qed
  qed
qed

lemma findBest_fold:
  "0 < k \<Longrightarrow>
   \<exists>j<k. foldl (\<lambda>(k, kValue) i.
                   let iValue = value_of P (population ! i)
                   in if (case kValue of None \<Rightarrow> True | Some kv \<Rightarrow> kv > iValue)
                      then (Some i, Some iValue) else (k, kValue))
            (None, None) [0..<k] = (Some j, Some (value_of P (population ! j)))
        \<and> (\<forall>i<k. value_of P (population ! j) \<le> value_of P (population ! i))"
proof (induction k)
  case 0
  then show ?case by simp
next
  case (Suc k)
  show ?case
  proof (cases "k = 0")
    case True
    then show ?thesis by simp
  next
    case False
    with Suc.IH obtain j where j: "j < k"
      "foldl (\<lambda>(k, kValue) i.
                   let iValue = value_of P (population ! i)
                   in if (case kValue of None \<Rightarrow> True | Some kv \<Rightarrow> kv > iValue)
                      then (Some i, Some iValue) else (k, kValue))
            (None, None) [0..<k] = (Some j, Some (value_of P (population ! j)))"
      "\<forall>i<k. value_of P (population ! j) \<le> value_of P (population ! i)" by auto
    show ?thesis
    proof (cases "value_of P (population ! j) > value_of P (population ! k)")
      case True
      then have "\<forall>i<Suc k. value_of P (population ! k) \<le> value_of P (population ! i)"
        using j(3) by (auto simp: less_Suc_eq)
      then show ?thesis using True j(2) by (intro exI[of _ k]) (simp add: Let_def)
    next
      case False
      then have "\<forall>i<Suc k. value_of P (population ! j) \<le> value_of P (population ! i)"
        using j(3) by (auto simp: less_Suc_eq)
      then show ?thesis using False j(1,2) by (intro exI[of _ j]) (simp add: Let_def)
    qed
  qed
qed

lemma findWorst_Some:
  "findWorst P population = Some w \<Longrightarrow>
   w < length population
   \<and> (\<forall>i<length population. value_of P (population ! i) \<le> value_of P (population ! w))"
proof (cases "population = []")
  case True
  assume "findWorst P population = Some w"
  with True show ?thesis by (simp add: findWorst_def)
next
  case False
  assume a: "findWorst P population = Some w"
  from False have "0 < length population" by simp
  from findWorst_fold[OF this, of P population] a show ?thesis
    by (auto simp: findWorst_def)
qed

lemma findBest_nonempty:
  "population \<noteq> [] \<Longrightarrow>
   \<exists>b<length population. findBest P population = Some b
      \<and> (\<forall>i<length population. value_of P (population ! b) \<le> value_of P (population ! i))"
proof -
  assume "population \<noteq> []"
  then have "0 < length population" by simp
  from findBest_fold[OF this, of P population] show ?thesis
    by (auto simp: findBest_def)
qed

lemma replace_loop_inv:
  "replace_loop P imp ist rss newP pop pc g = Done (pop', pc') g' \<Longrightarrow>
   length pc = length pop \<Longrightarrow> \<forall>i<length pop. pc ! i = value_of P (pop ! i) \<Longrightarrow>
   length pop' = length pop \<and> length pc' = length pop
   \<and> (\<forall>i<length pop. pc' ! i = value_of P (pop' ! i))
   \<and> (\<forall>q\<in>set pop. \<exists>q'\<in>set pop'. value_of P q' \<le> value_of P q)"
proof (induction newP arbitrary: pop pc g)
  case Nil
  then show ?case by auto
next
  case (Cons p ps)
  from Cons.prems(1) obtain p1 g1 where i: "improve_n P imp ist rss p g = Done p1 g1"
    by (auto split: res.splits)
  let ?v = "value_of P p1"
  show ?case
  proof (cases "findWorst P pop")
    case None
    with i Cons.prems(1) have "replace_loop P imp ist rss ps pop pc g1 = Done (pop', pc') g'"
      by (simp add: Let_def)
    from Cons.IH[OF this Cons.prems(2,3)] show ?thesis .
  next
    case (Some w)
    note fw = findWorst_Some[OF Some]
    show ?thesis
    proof (cases "pc ! w > ?v")
      case False
      with i Some Cons.prems(1) have "replace_loop P imp ist rss ps pop pc g1 = Done (pop', pc') g'"
        by (simp add: Let_def)
      from Cons.IH[OF this Cons.prems(2,3)] show ?thesis .
    next
      case True
      let ?pop1 = "pop[w := p1]" and ?pc1 = "pc[w := ?v]"
      from True i Some Cons.prems(1) have
        r: "replace_loop P imp ist rss ps ?pop1 ?pc1 g1 = Done (pop', pc') g'"
        by (simp add: Let_def)
      have l1: "length ?pc1 = length ?pop1" using Cons.prems(2) by simp
      have c1: "\<forall>i<length ?pop1. ?pc1 ! i = value_of P (?pop1 ! i)"
      proof (intro allI impI)
        fix i assume "i < length ?pop1"
        then have i: "i < length pop" "i < length pc" using Cons.prems(2) by simp_all
        show "?pc1 ! i = value_of P (?pop1 ! i)"
          using i Cons.prems(3) by (cases "i = w") simp_all
      qed
      from Cons.IH[OF r l1 c1] have ih: "length pop' = length pop" "length pc' = length pop"
        "\<forall>i<length pop. pc' ! i = value_of P (pop' ! i)"
        "\<forall>q\<in>set ?pop1. \<exists>q'\<in>set pop'. value_of P q' \<le> value_of P q" by simp_all
      have better: "?v < value_of P (pop ! w)" using True Cons.prems(3) fw by simp
      have "\<exists>q'\<in>set pop'. value_of P q' \<le> value_of P q" if "q \<in> set pop" for q
      proof -
        from that obtain k where k: "k < length pop" "q = pop ! k" by (auto simp: in_set_conv_nth)
        show ?thesis
        proof (cases "k = w")
          case True
          have "p1 \<in> set ?pop1" using fw by (simp add: set_update_memI)
          with ih(4) obtain q' where q': "q' \<in> set pop'" "value_of P q' \<le> ?v" by blast
          have "value_of P q' \<le> value_of P q" using q'(2) better k(2) True by simp
          with q'(1) show ?thesis by blast
        next
          case False
          then have "?pop1 ! k = q" using k by simp
          moreover have "?pop1 ! k \<in> set ?pop1" using k(1) by simp
          ultimately have "q \<in> set ?pop1" by simp
          with ih(4) show ?thesis by blast
        qed
      qed
      with ih(1,2,3) show ?thesis by blast
    qed
  qed
qed

lemma generation_inv:
  assumes "generation P popSize imp ist rss selRate xRate pop pc g = Done (pop', pc') g'"
    and "length pc = length pop" and "\<forall>i<length pop. pc ! i = value_of P (pop ! i)"
  shows "length pop' = length pop \<and> length pc' = length pop
   \<and> (\<forall>i<length pop. pc' ! i = value_of P (pop' ! i))
   \<and> (\<forall>q\<in>set pop. \<exists>q'\<in>set pop'. value_of P q' \<le> value_of P q)"
proof -
  from assms(1) obtain newP g2 where
    "replace_loop P imp ist rss newP pop pc g2 = Done (pop', pc') g'"
    by (auto simp: generation_def split: res.splits)
  from replace_loop_inv[OF this assms(2,3)] show ?thesis .
qed

lemma generations_inv:
  "generations P k popSize imp ist rss selRate xRate pop pc g = Done (pop', pc') g' \<Longrightarrow>
   length pc = length pop \<Longrightarrow> \<forall>i<length pop. pc ! i = value_of P (pop ! i) \<Longrightarrow>
   length pop' = length pop \<and> length pc' = length pop
   \<and> (\<forall>i<length pop. pc' ! i = value_of P (pop' ! i))
   \<and> (\<forall>q\<in>set pop. \<exists>q'\<in>set pop'. value_of P q' \<le> value_of P q)"
proof (induction k arbitrary: pop pc g)
  case 0
  then show ?case by auto
next
  case (Suc k)
  from Suc.prems(1) obtain pop1 pc1 g1 where
    s: "generation P popSize imp ist rss selRate xRate pop pc g = Done (pop1, pc1) g1"
    and r: "generations P k popSize imp ist rss selRate xRate pop1 pc1 g1 = Done (pop', pc') g'"
    by (auto split: res.splits)
  from generation_inv[OF s Suc.prems(2,3)] have a: "length pop1 = length pop"
    "length pc1 = length pop1" "\<forall>i<length pop1. pc1 ! i = value_of P (pop1 ! i)"
    "\<forall>q\<in>set pop. \<exists>q'\<in>set pop1. value_of P q' \<le> value_of P q" by simp_all
  from Suc.IH[OF r a(2,3)] have b: "length pop' = length pop1" "length pc' = length pop1"
    "\<forall>i<length pop1. pc' ! i = value_of P (pop' ! i)"
    "\<forall>q\<in>set pop1. \<exists>q'\<in>set pop'. value_of P q' \<le> value_of P q" by simp_all
  have "\<forall>q\<in>set pop. \<exists>q'\<in>set pop'. value_of P q' \<le> value_of P q"
    using a(4) b(4) by (meson order_trans)
  with a(1) b(1,2,3) show ?case by simp
qed

lemma init_population_inv:
  "init_population P k imp ist rss pop pc g = Done (pop', pc') g' \<Longrightarrow>
   length pc = length pop \<Longrightarrow> \<forall>i<length pop. pc ! i = value_of P (pop ! i) \<Longrightarrow>
   length pop' = length pop + k \<and> length pc' = length pop'
   \<and> (\<forall>i<length pop'. pc' ! i = value_of P (pop' ! i))"
proof (induction k arbitrary: pop pc g)
  case 0
  then show ?case by auto
next
  case (Suc k)
  from Suc.prems(1) obtain s g1 s1 g2 where
    r: "init_population P k imp ist rss (pop @ [s1]) (pc @ [value_of P s1]) g2 = Done (pop', pc') g'"
    by (auto split: res.splits)
  have l: "length (pc @ [value_of P s1]) = length (pop @ [s1])" using Suc.prems(2) by simp
  have c: "\<forall>i<length (pop @ [s1]). (pc @ [value_of P s1]) ! i = value_of P ((pop @ [s1]) ! i)"
    using Suc.prems(2,3) by (auto simp: nth_append less_Suc_eq)
  from Suc.IH[OF r l c] show ?case by simp
qed

lemma finalize_best:
  assumes "finalize P imp ist rss pop g = Done r g'" and "pop \<noteq> []"
  shows "\<exists>p. r = Some p \<and> (\<forall>q\<in>set pop. value_of P p \<le> value_of P q)"
proof -
  from findBest_nonempty[OF assms(2), of P] obtain b where b: "b < length pop"
    "findBest P pop = Some b" "\<forall>i<length pop. value_of P (pop ! b) \<le> value_of P (pop ! i)"
    by blast
  with assms(1) obtain p where p: "improve_n P imp ist rss (pop ! b) g = Done p g'" "r = Some p"
    by (auto simp: finalize_def split: res.splits)
  have "value_of P p \<le> value_of P q" if "q \<in> set pop" for q
  proof -
    from that obtain i where i: "i < length pop" "q = pop ! i" by (auto simp: in_set_conv_nth)
    have "value_of P (pop ! b) \<le> value_of P q" using b(3) i by simp
    with improve_n_not_worse[OF p(1)] show ?thesis by simp
  qed
  with p(2) show ?thesis by blast
qed

text \<open>
  The pass of the replacement loop for one child: either nothing changes, or the child
  (after its improvement passes) is strictly better than a member of maximal fitness,
  the first one \<open>findWorst\<close> meets, and takes its place together with its fitness.
\<close>

lemma replacement_overwrites_worst:
  assumes "replace_loop P imp ist rss [child] pop pc g = Done (pop', pc') g'"
    and "length pc = length pop" and "\<forall>i<length pop. pc ! i = value_of P (pop ! i)"
  shows "(pop' = pop \<and> pc' = pc)
     \<or> (\<exists>w p. findWorst P pop = Some w \<and> w < length pop
            \<and> (\<forall>i<length pop. value_of P (pop ! i) \<le> value_of P (pop ! w))
            \<and> improve_n P imp ist rss child g = Done p g'
            \<and> value_of P p < value_of P (pop ! w)
            \<and> pop' = pop[w := p] \<and> pc' = pc[w := value_of P p])"
proof -
  from assms(1) obtain p where i: "improve_n P imp ist rss child g = Done p g'"
    by (auto simp: Let_def split: res.splits option.splits if_splits)
  show ?thesis
  proof (cases "findWorst P pop")
    case None
    with i assms(1) show ?thesis by (simp add: Let_def)
  next
    case (Some w)
    note fw = findWorst_Some[OF Some]
    show ?thesis
    proof (cases "pc ! w > value_of P p")
      case False
      with i Some assms(1) show ?thesis by (simp add: Let_def)
    next
      case True
      with i Some assms(1) have "pop' = pop[w := p]" "pc' = pc[w := value_of P p]"
        by (simp_all add: Let_def)
      moreover have "value_of P p < value_of P (pop ! w)" using True assms(3) fw by simp
      ultimately show ?thesis using Some fw i by blast
    qed
  qed
qed

text \<open>
  Claim C4. Take any supply of draws on which \<open>ssgarow\<close> returns, with a population of
  at least one member, and let \<open>pop0\<close> be the population right after initialisation.
  Then the generation loop ends with a population \<open>pop1\<close> of the same size in which every
  member of \<open>pop0\<close> has a match that is at least as good (the minimum fitness has not
  gone up), the returned solution is at least as good as every member of \<open>pop1\<close> (the
  best member, after improvement passes that never worsen it), and therefore at least
  as good as every member of \<open>pop0\<close>.
\<close>

theorem ssgarow_not_worse_than_initial:
  assumes "1 \<le> popSize"
    and "init_population P popSize improvements improveS rowSelectionS [] [] g = Done (pop0, pCost0) g0"
    and "ssgarow P popSize genN improvements improveS rowSelectionS selRate xRate g = Done r g'"
  shows "length pop0 = popSize
    \<and> (\<exists>pop1 pCost1 g1.
          generations P genN popSize improvements improveS rowSelectionS selRate xRate pop0 pCost0 g0
            = Done (pop1, pCost1) g1
          \<and> length pop1 = popSize
          \<and> (\<forall>q\<in>set pop0. \<exists>q'\<in>set pop1. value_of P q' \<le> value_of P q)
          \<and> (\<exists>p. r = Some p \<and> (\<forall>q'\<in>set pop1. value_of P p \<le> value_of P q')))
    \<and> (\<exists>p. r = Some p \<and> (\<forall>q\<in>set pop0. value_of P p \<le> value_of P q))"
proof -
  from init_population_inv[OF assms(2)] have i: "length pop0 = popSize"
    "length pCost0 = length pop0" "\<forall>i<length pop0. pCost0 ! i = value_of P (pop0 ! i)"
    by simp_all
  from assms(2,3) obtain pop1 pCost1 g1 where
    gs: "generations P genN popSize improvements improveS rowSelectionS selRate xRate pop0 pCost0 g0
            = Done (pop1, pCost1) g1"
    and f: "finalize P improvements improveS rowSelectionS pop1 g1 = Done r g'"
    by (auto simp: ssgarow_def split: res.splits)
  from generations_inv[OF gs i(2,3)] have k: "length pop1 = length pop0"
    "\<forall>q\<in>set pop0. \<exists>q'\<in>set pop1. value_of P q' \<le> value_of P q" by simp_all
  have "pop1 \<noteq> []" using k(1) i(1) assms(1) by auto
  from finalize_best[OF f this] obtain p where p: "r = Some p"
    "\<forall>q'\<in>set pop1. value_of P p \<le> value_of P q'" by blast
  have "\<forall>q\<in>set pop0. value_of P p \<le> value_of P q"
    using k(2) p(2) by (meson order_trans)
  with i(1) gs k p show ?thesis by auto
qed

text \<open>
  A run on the scenario with two members, one generation and one improvement pass. The
  initial population has fitness 1 and 3; both members become candidates, the first is
  crossed with the second (one mutation fires), the better child replaces the worst
  member; the result has fitness 1.
\<close>

theorem ssgarow_not_worse_than_initial_witness:
  "init_population scenario 2 1 IS_Best RSS_Max [] []
        (Rng [0, 3, 0, 1, 0, 1, 1, 1, 1, 1, 2]
          [1 / 2, 1 / 2, 1 / 2, 1 / 2, 1 / 2, 1 / 2, 1 / 10, 1 / 2, 1 / 2, 9 / 10])
     = Done ([[False, False, False, True], [True, True, False, False]], [1, 3])
        (Rng [0, 1, 1, 1, 1, 1, 2]
          [1 / 2, 1 / 2, 1 / 2, 1 / 2, 1 / 2, 1 / 2, 1 / 10, 1 / 2, 1 / 2, 9 / 10])
   \<and> ssgarow scenario 2 1 1 IS_Best RSS_Max 1 (7 / 10)
        (Rng [0, 3, 0, 1, 0, 1, 1, 1, 1, 1, 2]
          [1 / 2, 1 / 2, 1 / 2, 1 / 2, 1 / 2, 1 / 2, 1 / 10, 1 / 2, 1 / 2, 9 / 10])
     = Done (Some [False, False, False, True]) (Rng [] [])
   \<and> value_of scenario [False, False, False, True] \<le> value_of scenario [False, False, False, True]
   \<and> value_of scenario [False, False, False, True] \<le> value_of scenario [True, True, False, False]
   \<and> value_of scenario [False, False, False, True] = 1
   \<and> value_of scenario [True, True, False, False] = 3"
proof -
  have e1: "init_population scenario 2 1 IS_Best RSS_Max [] []
        (Rng [0, 3, 0, 1, 0, 1, 1, 1, 1, 1, 2]
          [1 / 2, 1 / 2, 1 / 2, 1 / 2, 1 / 2, 1 / 2, 1 / 10, 1 / 2, 1 / 2, 9 / 10])
     = Done ([[False, False, False, True], [True, True, False, False]], [1, 3])
        (Rng [0, 1, 1, 1, 1, 1, 2]
          [1 / 2, 1 / 2, 1 / 2, 1 / 2, 1 / 2, 1 / 2, 1 / 10, 1 / 2, 1 / 2, 9 / 10])"
    by code_simp
  have e2: "ssgarow scenario 2 1 1 IS_Best RSS_Max 1 (7 / 10)
        (Rng [0, 3, 0, 1, 0, 1, 1, 1, 1, 1, 2]
          [1 / 2, 1 / 2, 1 / 2, 1 / 2, 1 / 2, 1 / 2, 1 / 10, 1 / 2, 1 / 2, 9 / 10])
     = Done (Some [False, False, False, True]) (Rng [] [])"
    by code_simp
  have v: "value_of scenario [False, False, False, True] = 1"
    "value_of scenario [True, True, False, False] = 3"
    by code_simp+
  have "(1::nat) \<le> 2" by simp
  from ssgarow_not_worse_than_initial[OF this e1 e2]
  have "\<forall>q\<in>set [[False, False, False, True], [True, True, False, False]].
          value_of scenario [False, False, False, True] \<le> value_of scenario q"
    by blast
  with e1 e2 v show ?thesis by simp
qed

end
